theory Spec2Isabelle
  imports Main "HOL-Library.Sublist" "HOL-Library.AList" "HOL-Library.Multiset"
begin

section \<open>Backoff retrier (src/lib/api-utils.ts)\<close>

subsection \<open>Thrown values\<close>

text \<open>
  The value caught by \<^verbatim>\<open>catch (error: any)\<close>. Only the parts that
  \<^verbatim>\<open>isTransientError\<close> reads are kept: \<^verbatim>\<open>error.message\<close>,
  \<^verbatim>\<open>error.toString()\<close>, \<^verbatim>\<open>error.code\<close> and
  \<^verbatim>\<open>error.statusCode\<close>. A code is absent, a number or a string.
  Strings are lists of 8-bit characters; numbers are integers (status codes, counts and
  millisecond delays; doubles are exact on them).
\<close>

datatype js_code = CodeUndefined | CodeNum int | CodeStr string

record js_error =
  message :: "string option"
  toStr :: string
  code :: js_code
  statusCode :: js_code

text \<open>
  \<open>Undefined\<close> is the initial value of \<^verbatim>\<open>lastError\<close>; \<open>Falsy\<close> stands for
  the other falsy values (null, 0, the empty string, false, NaN); \<open>Err\<close> is any truthy
  value, seen through the four reads above.
\<close>

datatype thrown = Undefined | Falsy | Err js_error

subsection \<open>isTransientError\<close>

text \<open>\<^verbatim>\<open>s.includes(sub)\<close>: \<open>sub\<close> occurs in \<open>s\<close> as a contiguous block.\<close>

definition includes_str :: "string \<Rightarrow> string \<Rightarrow> bool" where
  "includes_str s sub = sublist sub s"

text \<open>Truthiness of a code, for \<^verbatim>\<open>error.code || error.statusCode || ''\<close>.\<close>

fun truthy_code :: "js_code \<Rightarrow> bool" where
  "truthy_code CodeUndefined = False"
| "truthy_code (CodeNum n) = (n \<noteq> 0)"
| "truthy_code (CodeStr s) = (s \<noteq> [])"

definition or_code :: "js_code \<Rightarrow> js_code \<Rightarrow> js_code" where
  "or_code a b = (if truthy_code a then a else b)"

text \<open>
  The numeric value a code takes in \<^verbatim>\<open>errorCode >= 500\<close>: a number is itself, a
  string of decimal digits is the number it writes, the empty string is 0, and any other
  string is read as NaN (\<open>None\<close>), for which every comparison is false. The other
  numeric spellings JavaScript accepts in a string (signs, blanks, exponents, hex) are
  not modelled and fall under NaN.
\<close>

definition is_digit :: "char \<Rightarrow> bool" where
  "is_digit c = ((48::nat) \<le> of_char c \<and> of_char c \<le> (57::nat))"

definition digits_value :: "string \<Rightarrow> int" where
  "digits_value s = foldl (\<lambda>acc c. 10 * acc + (of_char c - 48)) 0 s"

fun toNumber :: "js_code \<Rightarrow> int option" where
  "toNumber CodeUndefined = None"
| "toNumber (CodeNum n) = Some n"
| "toNumber (CodeStr s) = (if list_all is_digit s then Some (digits_value s) else None)"

definition code_ge :: "js_code \<Rightarrow> int \<Rightarrow> bool" where
  "code_ge c k = (case toNumber c of None \<Rightarrow> False | Some n \<Rightarrow> k \<le> n)"

definition code_lt :: "js_code \<Rightarrow> int \<Rightarrow> bool" where
  "code_lt c k = (case toNumber c of None \<Rightarrow> False | Some n \<Rightarrow> n < k)"

definition or_str :: "string \<Rightarrow> string \<Rightarrow> string" where
  "or_str a b = (if a \<noteq> [] then a else b)"

fun isTransientError :: "thrown \<Rightarrow> bool" where
  "isTransientError Undefined = False"
| "isTransientError Falsy = False"
| "isTransientError (Err error) =
     (let errorMessage =
            or_str (or_str (case message error of None \<Rightarrow> [] | Some m \<Rightarrow> m) (toStr error)) [];
          errorCode = or_code (or_code (code error) (statusCode error)) (CodeStr [])
      in if includes_str errorMessage ''fetch failed'' \<or>
            includes_str errorMessage ''ECONNREFUSED'' \<or>
            includes_str errorMessage ''ECONNRESET'' \<or>
            includes_str errorMessage ''ETIMEDOUT'' \<or>
            includes_str errorMessage ''timeout'' \<or>
            errorCode = CodeStr ''UND_ERR_CONNECT_TIMEOUT'' \<or>
            errorCode = CodeStr ''UND_ERR_SOCKET''
         then True
         else if code_ge errorCode 500 \<and> code_lt errorCode 600 then True
         else if errorCode = CodeNum 429 then True
         else False)"

subsection \<open>retryWithBackoff\<close>

text \<open>
  The options after destructuring with their defaults. \<open>onRetry\<close> says whether a
  callback was supplied; its invocations are logged.
\<close>

record retry_options =
  maxRetries :: int
  initialDelayMs :: int
  maxDelayMs :: int
  backoffMultiplier :: int
  onRetry :: bool

definition default_options :: retry_options where
  "default_options =
     \<lparr>maxRetries = 3, initialDelayMs = 500, maxDelayMs = 10000, backoffMultiplier = 2,
      onRetry = False\<rparr>"

text \<open>
  What one run of \<^verbatim>\<open>retryWithBackoff\<close> does: how the returned promise settles
  (\<open>Inl\<close> the rejection), how many times \<^verbatim>\<open>fn\<close> was called, the delays handed
  to \<^verbatim>\<open>setTimeout\<close> in order, and the calls of \<^verbatim>\<open>onRetry\<close> in order.
  \<open>lastError\<close> is the local variable of that name.
\<close>

record 'v retry_run =
  outcome :: "thrown + 'v"
  calls :: nat
  delays :: "int list"
  retried :: "(int \<times> thrown) list"
  lastError :: thrown

definition retry_start :: "'v retry_run" where
  "retry_start = \<lparr>outcome = Inl Undefined, calls = 0, delays = [], retried = [],
     lastError = Undefined\<rparr>"

definition delayMs :: "retry_options \<Rightarrow> int \<Rightarrow> int" where
  "delayMs opts attempt =
     min (initialDelayMs opts * backoffMultiplier opts ^ nat attempt) (maxDelayMs opts)"

text \<open>
  The wrapped action is a function of the number of calls made before: \<open>fn k\<close> is how
  the promise of call number \<open>k\<close> (from 0) settles. The \<^verbatim>\<open>for\<close> loop is the
  recursion on \<open>attempt\<close>; leaving the loop reaches \<^verbatim>\<open>throw lastError\<close>.
\<close>

function retryLoop ::
  "retry_options \<Rightarrow> (nat \<Rightarrow> thrown + 'v) \<Rightarrow> int \<Rightarrow> 'v retry_run \<Rightarrow> 'v retry_run" where
  "retryLoop opts fn attempt run =
     (if attempt \<le> maxRetries opts then
        (case fn (calls run) of
           Inr v \<Rightarrow> run\<lparr>outcome := Inr v, calls := Suc (calls run)\<rparr>
         | Inl error \<Rightarrow>
             if \<not> isTransientError error then
               run\<lparr>outcome := Inl error, calls := Suc (calls run), lastError := error\<rparr>
             else if attempt \<ge> maxRetries opts then
               run\<lparr>outcome := Inl error, calls := Suc (calls run), lastError := error\<rparr>
             else
               retryLoop opts fn (attempt + 1)
                 (run\<lparr>calls := Suc (calls run),
                      delays := delays run @ [delayMs opts attempt],
                      retried := retried run @ (if onRetry opts then [(attempt + 1, error)] else []),
                      lastError := error\<rparr>))
      else run\<lparr>outcome := Inl (lastError run)\<rparr>)"
  by pat_completeness auto
termination
  by (relation "measure (\<lambda>(opts, fn, attempt, run). nat (maxRetries opts + 1 - attempt))") auto

declare retryLoop.simps [simp del]

definition retryWithBackoff :: "(nat \<Rightarrow> thrown + 'v) \<Rightarrow> retry_options \<Rightarrow> 'v retry_run" where
  "retryWithBackoff fn opts = retryLoop opts fn 0 retry_start"


section \<open>Connection pool (src/lib/supabase.ts)\<close>

subsection \<open>decodeJWT and isTokenExpired\<close>

text \<open>
  Of the decoded payload only \<^verbatim>\<open>payload.exp\<close> is read by the pool: a number of
  epoch seconds, or absent.
\<close>

record jwt_payload =
  exp :: "int option"

text \<open>\<^verbatim>\<open>token.split('.')\<close>\<close>

fun split_on :: "char \<Rightarrow> string \<Rightarrow> string list" where
  "split_on sep [] = [[]]"
| "split_on sep (c # cs) =
     (if c = sep then [] # split_on sep cs
      else (case split_on sep cs of
              [] \<Rightarrow> [[c]]
            | part # parts \<Rightarrow> (c # part) # parts))"

text \<open>\<^verbatim>\<open>payload.replace(/-/g, '+').replace(/_/g, '/')\<close>\<close>

definition base64url_to_base64 :: "string \<Rightarrow> string" where
  "base64url_to_base64 payload =
     map (\<lambda>c. if c = CHR ''_'' then CHR ''/'' else c)
       (map (\<lambda>c. if c = CHR ''-'' then CHR ''+'' else c) payload)"

text \<open>
  \<^verbatim>\<open>Buffer.from(_, 'base64').toString('utf-8')\<close> followed by
  \<^verbatim>\<open>JSON.parse\<close> belong to the platform, not to the repository: they are the
  parameter \<open>parse\<close>, which gives \<open>None\<close> where \<^verbatim>\<open>JSON.parse\<close> throws or yields
  a falsy value (both make \<^verbatim>\<open>!payload\<close> true), and otherwise the payload.
\<close>

definition decodeJWT :: "(string \<Rightarrow> jwt_payload option) \<Rightarrow> string \<Rightarrow> jwt_payload option" where
  "decodeJWT parse token =
     (let parts = split_on CHR ''.'' token
      in if length parts \<noteq> 3 then None
         else parse (base64url_to_base64 (parts ! 1)))"

text \<open>\<open>now\<close> is \<^verbatim>\<open>Date.now()\<close>, in milliseconds.\<close>

definition isTokenExpired :: "(string \<Rightarrow> jwt_payload option) \<Rightarrow> int \<Rightarrow> string \<Rightarrow> bool" where
  "isTokenExpired parse now token =
     (case decodeJWT parse token of
        None \<Rightarrow> True
      | Some payload \<Rightarrow>
          (case exp payload of
             None \<Rightarrow> True
           | Some e \<Rightarrow> if e = 0 then True else e < now div 1000 + 300))"

subsection \<open>hashToken\<close>

text \<open>
  \<^verbatim>\<open>x | 0\<close>, \<^verbatim>\<open>x & x\<close> and the operands of \<^verbatim>\<open><<\<close> read a number
  as a signed 32-bit integer: the value modulo \<open>2^32\<close> in the range from \<open>-2^31\<close>.
\<close>

definition to_int32 :: "int \<Rightarrow> int" where
  "to_int32 x = (x + 2147483648) mod 4294967296 - 2147483648"

text \<open>
  One turn of the loop: \<^verbatim>\<open>hash = ((hash << 5) - hash) + char; hash = hash & hash\<close>.
  The shift yields a 32-bit integer; the subtraction and the addition are on doubles and
  exact (all values stay far below \<open>2^53\<close>).
\<close>

definition hash_step :: "int \<Rightarrow> char \<Rightarrow> int" where
  "hash_step hash c = to_int32 ((to_int32 (hash * 32) - hash) + of_char c)"

definition digit36 :: "nat \<Rightarrow> char" where
  "digit36 d = ''0123456789abcdefghijklmnopqrstuvwxyz'' ! d"

function nat36 :: "nat \<Rightarrow> string" where
  "nat36 n = (if n < 36 then [digit36 n] else nat36 (n div 36) @ [digit36 (n mod 36)])"
  by pat_completeness auto
termination
  by (relation "measure (\<lambda>n. n)") auto

declare nat36.simps [simp del]

text \<open>\<^verbatim>\<open>hash.toString(36)\<close>\<close>

definition toString36 :: "int \<Rightarrow> string" where
  "toString36 i = (if i < 0 then CHR ''-'' # nat36 (nat (- i)) else nat36 (nat i))"

definition hashToken :: "string \<Rightarrow> string" where
  "hashToken token =
     toString36 (foldl hash_step 0 (take (min (length token) 100) token))"

subsection \<open>The pool\<close>

text \<open>
  A client object: \<open>clientId\<close> is its identity (the number of clients constructed
  before it), \<open>authorization\<close> the bearer token in its headers and storage.
\<close>

record supabase_client =
  clientId :: nat
  authorization :: string

record PooledClient =
  client :: supabase_client
  createdAt :: int
  lastUsed :: int
  tokenHash :: string

text \<open>
  The \<^verbatim>\<open>Map\<close> keeps insertion order, which \<^verbatim>\<open>cleanup\<close> reads through the
  stable sort: it is an association list with distinct keys. \<open>constructed\<close> counts the
  calls of \<^verbatim>\<open>createClient\<close>; the monitor's bookkeeping is left out.
\<close>

record ClientPool =
  pool :: "(string \<times> PooledClient) list"
  constructed :: nat

definition MAX_POOL_SIZE :: nat where
  "MAX_POOL_SIZE = 50"

definition CLIENT_TTL :: int where
  "CLIENT_TTL = 30 * 60 * 1000"

definition new_pool :: ClientPool where
  "new_pool = \<lparr>pool = [], constructed = 0\<rparr>"

definition createNewClient :: "string \<Rightarrow> ClientPool \<Rightarrow> supabase_client \<times> ClientPool" where
  "createNewClient accessToken s =
     (\<lparr>clientId = constructed s, authorization = accessToken\<rparr>,
      s\<lparr>constructed := Suc (constructed s)\<rparr>)"

definition getClient ::
  "(string \<Rightarrow> jwt_payload option) \<Rightarrow> int \<Rightarrow> string \<Rightarrow> ClientPool \<Rightarrow> supabase_client \<times> ClientPool" where
  "getClient parse now accessToken s =
     (if isTokenExpired parse now accessToken then createNewClient accessToken s
      else
        let hash = hashToken accessToken
        in case map_of (pool s) hash of
             Some pooled \<Rightarrow>
               (client pooled, s\<lparr>pool := AList.update hash (pooled\<lparr>lastUsed := now\<rparr>) (pool s)\<rparr>)
           | None \<Rightarrow>
               let (c, s1) = createNewClient accessToken s
               in if length (pool s1) < MAX_POOL_SIZE
                  then (c, s1\<lparr>pool := AList.update hash
                                \<lparr>client = c, createdAt = now, lastUsed = now, tokenHash = hash\<rparr>
                                (pool s1)\<rparr>)
                  else (c, s1))"

text \<open>The first two loops of \<^verbatim>\<open>cleanup\<close>: collect the expired keys, delete them.\<close>

definition evictExpired :: "int \<Rightarrow> (string \<times> PooledClient) list \<Rightarrow> (string \<times> PooledClient) list" where
  "evictExpired now p =
     (let expired = map fst (filter (\<lambda>(key, pooled).
                       now - lastUsed pooled > CLIENT_TTL \<or> now - createdAt pooled > CLIENT_TTL * 2) p)
      in fold AList.delete expired p)"

text \<open>
  The branch under \<^verbatim>\<open>if (this.pool.size > this.MAX_POOL_SIZE)\<close>. The comparator
  \<^verbatim>\<open>a[1].lastUsed - b[1].lastUsed\<close> sorts ascending, and the sort is stable.
\<close>

definition trimLRU :: "(string \<times> PooledClient) list \<Rightarrow> (string \<times> PooledClient) list" where
  "trimLRU p =
     (let entries = sort_key (\<lambda>(key, pooled). lastUsed pooled) p;
          toRemove = take (length p - MAX_POOL_SIZE) entries
      in fold (\<lambda>(key, pooled). AList.delete key) toRemove p)"

definition cleanup :: "int \<Rightarrow> ClientPool \<Rightarrow> ClientPool" where
  "cleanup now s =
     (let p = evictExpired now (pool s)
      in if length p > MAX_POOL_SIZE then s\<lparr>pool := trimLRU p\<rparr> else s\<lparr>pool := p\<rparr>)"

definition clear_pool :: "ClientPool \<Rightarrow> ClientPool" where
  "clear_pool s = s\<lparr>pool := []\<rparr>"

definition getSize :: "ClientPool \<Rightarrow> nat" where
  "getSize s = length (pool s)"

text \<open>
  What can happen to the singleton pool: a call of \<^verbatim>\<open>getClient\<close> (through
  \<^verbatim>\<open>createAuthenticatedClient\<close>) at some time, a firing of the cleanup interval at
  some time, and \<^verbatim>\<open>clear\<close>.
\<close>

datatype pool_op = GetClient int string | Cleanup int | ClearPool

fun pool_step :: "(string \<Rightarrow> jwt_payload option) \<Rightarrow> pool_op \<Rightarrow> ClientPool \<Rightarrow> ClientPool" where
  "pool_step parse (GetClient now token) s = snd (getClient parse now token s)"
| "pool_step parse (Cleanup now) s = cleanup now s"
| "pool_step parse ClearPool s = clear_pool s"

definition pool_run :: "(string \<Rightarrow> jwt_payload option) \<Rightarrow> pool_op list \<Rightarrow> ClientPool" where
  "pool_run parse ops = fold (pool_step parse) ops new_pool"


section \<open>Batching request queue (src/app/api/upload/route.ts)\<close>

subsection \<open>State\<close>

text \<open>
  A queued unit. \<open>fn\<close> is the caller's action, opaque to the queue. The pair
  \<^verbatim>\<open>resolve\<close>/\<^verbatim>\<open>reject\<close> is bound to the promise \<^verbatim>\<open>queueRequest\<close>
  returned: \<open>promise\<close> is the index of that promise in the table of promises below.
  \<^verbatim>\<open>id\<close> (a time stamp and a random suffix) is written and never read; it is left out.
\<close>

record 'f QueuedRequest =
  fn :: 'f
  promise :: nat
  timestamp :: int

text \<open>\<open>timeoutId = Some d\<close>: a timer is pending and due at clock \<open>d\<close>; \<open>None\<close> is null.\<close>

record 'f RequestBatch =
  requests :: "'f QueuedRequest list"
  timeoutId :: "int option"

datatype ('e, 'v) promise_state = Pending | Resolved 'v | Rejected 'e

text \<open>
  Where the one activation of \<^verbatim>\<open>processQueue\<close> stands between two turns of the
  event loop: not running, or suspended at one of its two awaits, with the clock value
  at which the awaited timer is due.
\<close>

datatype loop_at = NotRunning | SleepInner int | SleepOuter int

text \<open>
  The fields of the class (\<open>queue\<close>, \<open>processing\<close>, \<open>currentConcurrent\<close>,
  \<open>pendingBatches\<close>) and the run-time state around them: the suspended activation of
  \<^verbatim>\<open>processQueue\<close>, the activations of \<^verbatim>\<open>executeRequest\<close> awaiting their
  \<^verbatim>\<open>fn()\<close> (\<open>running\<close>), the promises handed out, and the clock. \<open>dispatched\<close> is a
  log of the units taken by \<^verbatim>\<open>queue.shift()\<close>, in order; nothing reads it.
\<close>

record ('f, 'e, 'v) RequestQueue =
  queue :: "'f QueuedRequest list"
  processing :: bool
  currentConcurrent :: int
  pendingBatches :: "(string \<times> 'f RequestBatch) list"
  loopAt :: loop_at
  running :: "'f QueuedRequest list"
  promises :: "('e, 'v) promise_state list"
  clock :: int
  dispatched :: "'f QueuedRequest list"

definition MAX_CONCURRENT :: int where
  "MAX_CONCURRENT = 10"

definition BATCH_DELAY_MS :: int where
  "BATCH_DELAY_MS = 50"

definition MAX_BATCH_SIZE :: nat where
  "MAX_BATCH_SIZE = 20"

definition new_queue :: "('f, 'e, 'v) RequestQueue" where
  "new_queue = \<lparr>queue = [], processing = False, currentConcurrent = 0, pendingBatches = [],
     loopAt = NotRunning, running = [], promises = [], clock = 0, dispatched = []\<rparr>"

subsection \<open>processQueue\<close>

text \<open>
  One turn of the body from \<^verbatim>\<open>this.queue.shift()\<close> to the call of
  \<^verbatim>\<open>executeRequest\<close>, which runs \<^verbatim>\<open>request.fn()\<close> up to its first await. The
  action is taken not to call back into the queue before it yields.
\<close>

definition dispatch :: "('f, 'e, 'v) RequestQueue \<Rightarrow> ('f, 'e, 'v) RequestQueue" where
  "dispatch s =
     (case queue s of
        [] \<Rightarrow> s
      | request # rest \<Rightarrow>
          s\<lparr>queue := rest,
            currentConcurrent := currentConcurrent s + 1,
            running := running s @ [request],
            dispatched := dispatched s @ [request]\<rparr>)"

text \<open>
  The outer \<^verbatim>\<open>while\<close> from its test, run until the activation suspends at an await
  or leaves the loop. Nothing else runs in between: the event loop is single-threaded.
\<close>

function drain :: "('f, 'e, 'v) RequestQueue \<Rightarrow> ('f, 'e, 'v) RequestQueue" where
  "drain s =
     (if queue s \<noteq> [] \<or> currentConcurrent s > 0 then
        (if currentConcurrent s \<ge> MAX_CONCURRENT \<and> queue s \<noteq> [] then
           s\<lparr>loopAt := SleepInner (clock s + 10)\<rparr>
         else if queue s \<noteq> [] then drain (dispatch s)
         else s\<lparr>loopAt := SleepOuter (clock s + 50)\<rparr>)
      else s\<lparr>processing := False, loopAt := NotRunning\<rparr>)"
  by pat_completeness auto
termination
  by (relation "measure (\<lambda>s. length (queue s))") (auto simp: dispatch_def split: list.splits)

declare drain.simps [simp del]

definition processQueue :: "('f, 'e, 'v) RequestQueue \<Rightarrow> ('f, 'e, 'v) RequestQueue" where
  "processQueue s = (if processing s then s else drain (s\<lparr>processing := True\<rparr>))"

text \<open>
  The awaited timer fires. From the inner await the inner test is taken again, then the
  rest of the body; from the outer await the outer test. A timer does not fire before it
  is due.
\<close>

definition resume :: "('f, 'e, 'v) RequestQueue \<Rightarrow> ('f, 'e, 'v) RequestQueue" where
  "resume s =
     (case loopAt s of
        NotRunning \<Rightarrow> s
      | SleepInner due \<Rightarrow>
          if clock s < due then s
          else if currentConcurrent s \<ge> MAX_CONCURRENT \<and> queue s \<noteq> [] then
            s\<lparr>loopAt := SleepInner (clock s + 10)\<rparr>
          else if queue s \<noteq> [] then drain (dispatch s)
          else s\<lparr>loopAt := SleepOuter (clock s + 50)\<rparr>
      | SleepOuter due \<Rightarrow> if clock s < due then s else drain s)"

subsection \<open>Batches\<close>

definition processBatch :: "string \<Rightarrow> ('f, 'e, 'v) RequestQueue \<Rightarrow> ('f, 'e, 'v) RequestQueue" where
  "processBatch batchKey s =
     (case map_of (pendingBatches s) batchKey of
        None \<Rightarrow> s
      | Some batch \<Rightarrow>
          (let s1 = s\<lparr>queue := queue s @ requests batch,
                      pendingBatches := AList.delete batchKey (pendingBatches s)\<rparr>
           in if \<not> processing s1 then processQueue s1 else s1))"

definition addToBatch ::
  "string \<Rightarrow> 'f QueuedRequest \<Rightarrow> ('f, 'e, 'v) RequestQueue \<Rightarrow> ('f, 'e, 'v) RequestQueue" where
  "addToBatch batchKey request s =
     (let batch = (case map_of (pendingBatches s) batchKey of
                     None \<Rightarrow> \<lparr>requests = [], timeoutId = None\<rparr>
                   | Some b \<Rightarrow> b);
          batch1 = batch\<lparr>requests := requests batch @ [request]\<rparr>
      in if length (requests batch1) \<ge> MAX_BATCH_SIZE then
           processBatch batchKey
             (s\<lparr>pendingBatches := AList.update batchKey batch1 (pendingBatches s)\<rparr>)
         else
           s\<lparr>pendingBatches :=
               AList.update batchKey (batch1\<lparr>timeoutId := Some (clock s + BATCH_DELAY_MS)\<rparr>)
                 (pendingBatches s)\<rparr>)"

subsection \<open>queueRequest, executeRequest, getStats, clear\<close>

record queue_options =
  batchKey :: "string option"
  priority :: "int option"

text \<open>\<^verbatim>\<open>if (options.batchKey)\<close>: the key is given and not the empty string.\<close>

definition batch_key_of :: "queue_options \<Rightarrow> string option" where
  "batch_key_of options =
     (case batchKey options of
        None \<Rightarrow> None
      | Some k \<Rightarrow> if k = [] then None else Some k)"

text \<open>The new promise's index is returned with the state.\<close>

definition queueRequest ::
  "'f \<Rightarrow> queue_options \<Rightarrow> ('f, 'e, 'v) RequestQueue \<Rightarrow> nat \<times> ('f, 'e, 'v) RequestQueue" where
  "queueRequest f options s =
     (let p = length (promises s);
          request = \<lparr>fn = f, promise = p, timestamp = clock s\<rparr>;
          s0 = s\<lparr>promises := promises s @ [Pending]\<rparr>;
          s1 = (case batch_key_of options of
                  Some k \<Rightarrow> addToBatch k request s0
                | None \<Rightarrow> s0\<lparr>queue := queue s0 @ [request]\<rparr>)
      in (p, if \<not> processing s1 then processQueue s1 else s1))"

text \<open>Settling a promise that is already settled does nothing.\<close>

definition settle ::
  "nat \<Rightarrow> ('e, 'v) promise_state \<Rightarrow> ('e, 'v) promise_state list \<Rightarrow> ('e, 'v) promise_state list" where
  "settle p x ps = (if p < length ps \<and> ps ! p = Pending then ps[p := x] else ps)"

text \<open>
  The rest of \<^verbatim>\<open>executeRequest\<close> once the promise of \<^verbatim>\<open>request.fn()\<close> has
  settled with \<open>result\<close> (\<open>Inl\<close> what it threw), and the \<^verbatim>\<open>finally\<close> callback
  after it.
\<close>

definition executeRequest_settled ::
  "'f QueuedRequest \<Rightarrow> 'e + 'v \<Rightarrow> ('f, 'e, 'v) RequestQueue \<Rightarrow> ('f, 'e, 'v) RequestQueue" where
  "executeRequest_settled request result s =
     (let s1 = (case result of
                  Inr v \<Rightarrow> s\<lparr>promises := settle (promise request) (Resolved v) (promises s)\<rparr>
                | Inl error \<Rightarrow> s\<lparr>promises := settle (promise request) (Rejected error) (promises s)\<rparr>)
      in s1\<lparr>currentConcurrent := currentConcurrent s1 - 1,
            running := remove1 request (running s1)\<rparr>)"

definition getStats :: "('f, 'e, 'v) RequestQueue \<Rightarrow> nat \<times> int \<times> nat" where
  "getStats s = (length (queue s), currentConcurrent s, length (pendingBatches s))"

definition clear :: "('f, 'e, 'v) RequestQueue \<Rightarrow> ('f, 'e, 'v) RequestQueue" where
  "clear s = s\<lparr>queue := [], pendingBatches := []\<rparr>"

subsection \<open>Turns of the event loop\<close>

text \<open>
  Each event is one turn: a call of \<^verbatim>\<open>queueRequest\<close>, the timer of a batch firing,
  the timer awaited by \<^verbatim>\<open>processQueue\<close> firing, the action of an in-flight unit
  settling, the clock advancing, a call of \<^verbatim>\<open>clear\<close>. An event that cannot happen
  in the state (a timer that is not pending or not due, a unit that is not in flight, a
  clock running backwards) leaves it unchanged.
\<close>

datatype ('f, 'e, 'v) event =
    QueueRequest 'f queue_options
  | BatchTimer string
  | LoopTimer
  | Settles nat "'e + 'v"
  | Tick int
  | Clear

fun step :: "('f, 'e, 'v) event \<Rightarrow> ('f, 'e, 'v) RequestQueue \<Rightarrow> ('f, 'e, 'v) RequestQueue" where
  "step (QueueRequest f options) s = snd (queueRequest f options s)"
| "step (BatchTimer k) s =
     (case map_of (pendingBatches s) k of
        None \<Rightarrow> s
      | Some batch \<Rightarrow>
          (case timeoutId batch of
             None \<Rightarrow> s
           | Some due \<Rightarrow> if clock s < due then s else processBatch k s))"
| "step LoopTimer s = resume s"
| "step (Settles p result) s =
     (case filter (\<lambda>r. promise r = p) (running s) of
        [] \<Rightarrow> s
      | request # others \<Rightarrow> executeRequest_settled request result s)"
| "step (Tick d) s = (if d < 0 then s else s\<lparr>clock := clock s + d\<rparr>)"
| "step Clear s = clear s"

definition run :: "('f, 'e, 'v) event list \<Rightarrow> ('f, 'e, 'v) RequestQueue" where
  "run evs = fold step evs new_queue"


section \<open>The retrier: transient and permanent failures\<close>

text \<open>
  While every call fails with a transient error, the loop goes on to the last attempt:
  one call per attempt, one delay before each retry, and the error of the last call as
  the outcome.
\<close>

lemma retryLoop_transient:
  assumes "\<forall>k. \<exists>e. act k = Inl e \<and> isTransientError e" and "attempt \<le> maxRetries opts"
  shows "calls (retryLoop opts act attempt acc) = calls acc + nat (maxRetries opts - attempt) + 1
       \<and> delays (retryLoop opts act attempt acc)
           = delays acc @ map (delayMs opts) [attempt..maxRetries opts - 1]
       \<and> outcome (retryLoop opts act attempt acc) = act (calls acc + nat (maxRetries opts - attempt))"
  using assms
proof (induction opts act attempt acc rule: retryLoop.induct)
  case (1 opts act attempt acc)
  from "1.prems"(1) obtain e where e: "act (calls acc) = Inl e" "isTransientError e" by blast
  show ?case
  proof (cases "attempt \<ge> maxRetries opts")
    case True
    with "1.prems"(2) have eq: "attempt = maxRetries opts" by simp
    show ?thesis
      by (subst (1 2 3) retryLoop.simps) (simp add: e eq)
  next
    case False
    let ?acc = "acc\<lparr>calls := Suc (calls acc),
                      delays := delays acc @ [delayMs opts attempt],
                      retried := retried acc @ (if onRetry opts then [(attempt + 1, e)] else []),
                      lastError := e\<rparr>"
    have le: "attempt + 1 \<le> maxRetries opts" using False by simp
    have IH: "calls (retryLoop opts act (attempt + 1) ?acc)
                = calls ?acc + nat (maxRetries opts - (attempt + 1)) + 1
       \<and> delays (retryLoop opts act (attempt + 1) ?acc)
                = delays ?acc @ map (delayMs opts) [attempt + 1..maxRetries opts - 1]
       \<and> outcome (retryLoop opts act (attempt + 1) ?acc)
                = act (calls ?acc + nat (maxRetries opts - (attempt + 1)))"
      using "1.IH"[OF "1.prems"(2) e(1) _ False "1.prems"(1) le] e(2) by simp
    have step: "retryLoop opts act attempt acc = retryLoop opts act (attempt + 1) ?acc"
      by (subst retryLoop.simps) (simp add: e False "1.prems"(2))
    have up: "[attempt..maxRetries opts - 1] = attempt # [attempt + 1..maxRetries opts - 1]"
      using False by (simp add: upto_rec1)
    have n: "Suc (calls acc + nat (maxRetries opts - (attempt + 1)))
               = calls acc + nat (maxRetries opts - attempt)"
      using False by simp
    show ?thesis unfolding step using IH up n by simp
  qed
qed

lemma retryWithBackoff_transient:
  assumes "\<forall>k. \<exists>e. act k = Inl e \<and> isTransientError e" and "0 \<le> maxRetries opts"
  shows "calls (retryWithBackoff act opts) = nat (maxRetries opts) + 1"
    and "delays (retryWithBackoff act opts) = map (delayMs opts) [0..maxRetries opts - 1]"
    and "outcome (retryWithBackoff act opts) = act (nat (maxRetries opts))"
  using retryLoop_transient[OF assms(1), of 0 opts retry_start] assms(2)
  by (simp_all add: retryWithBackoff_def retry_start_def)



text \<open>Two thrown values to run the retrier on: a timeout, and a refusal with status 400.\<close>

definition timeout_error :: thrown where
  "timeout_error = Err \<lparr>message = Some ''Request timeout'', toStr = ''Error: Request timeout'',
     code = CodeUndefined, statusCode = CodeUndefined\<rparr>"


lemma timeout_error_transient: "isTransientError timeout_error"
  by code_simp


text \<open>
  C3. An action that fails with a transient error at every call, retried under
  maxRetries = 3, initialDelayMs = 500, backoffMultiplier = 2, maxDelayMs = 10000
  (with or without an \<^verbatim>\<open>onRetry\<close> callback), is called exactly 4 times; the delays
  waited are 500, 1000, 2000 ms, in this order; and the promise rejects with what the
  fourth call threw, as it is. For any options with maxRetries at least 0 the calls
  number maxRetries + 1, the delay before retry number \<open>attempt + 1\<close> is
  min (initialDelayMs * backoffMultiplier ^ attempt) maxDelayMs, and the outcome is the
  failure of the last call.
\<close>

theorem retry_transient_exhausts:
  assumes "\<forall>k. \<exists>e. act k = Inl e \<and> isTransientError e"
  shows "calls (retryWithBackoff act (default_options\<lparr>onRetry := cb\<rparr>)) = 4
       \<and> delays (retryWithBackoff act (default_options\<lparr>onRetry := cb\<rparr>)) = [500, 1000, 2000]
       \<and> outcome (retryWithBackoff act (default_options\<lparr>onRetry := cb\<rparr>)) = act 3
       \<and> (\<forall>opts. 0 \<le> maxRetries opts \<longrightarrow>
            calls (retryWithBackoff act opts) = nat (maxRetries opts) + 1
          \<and> delays (retryWithBackoff act opts)
              = map (\<lambda>attempt. min (initialDelayMs opts * backoffMultiplier opts ^ nat attempt)
                                   (maxDelayMs opts)) [0..maxRetries opts - 1]
          \<and> outcome (retryWithBackoff act opts) = act (nat (maxRetries opts)))"
proof -
  have gen: "calls (retryWithBackoff act opts) = nat (maxRetries opts) + 1
          \<and> delays (retryWithBackoff act opts)
              = map (\<lambda>attempt. min (initialDelayMs opts * backoffMultiplier opts ^ nat attempt)
                                   (maxDelayMs opts)) [0..maxRetries opts - 1]
          \<and> outcome (retryWithBackoff act opts) = act (nat (maxRetries opts))"
    if "0 \<le> maxRetries opts" for opts
    using retryWithBackoff_transient[OF assms that] by (simp add: delayMs_def[abs_def])
  have "0 \<le> maxRetries (default_options\<lparr>onRetry := cb\<rparr>)" by (simp add: default_options_def)
  from gen[OF this] have "calls (retryWithBackoff act (default_options\<lparr>onRetry := cb\<rparr>)) = 4
       \<and> delays (retryWithBackoff act (default_options\<lparr>onRetry := cb\<rparr>)) = [500, 1000, 2000]
       \<and> outcome (retryWithBackoff act (default_options\<lparr>onRetry := cb\<rparr>)) = act 3"
    by (simp add: default_options_def upto_rec1 numeral_3_eq_3)
  with gen show ?thesis by blast
qed

theorem retry_transient_exhausts_witness:
  "isTransientError timeout_error
   \<and> calls (retryWithBackoff (\<lambda>k. Inl timeout_error :: thrown + nat) default_options) = 4
   \<and> delays (retryWithBackoff (\<lambda>k. Inl timeout_error :: thrown + nat) default_options)
       = [500, 1000, 2000]
   \<and> outcome (retryWithBackoff (\<lambda>k. Inl timeout_error :: thrown + nat) default_options)
       = Inl timeout_error"
  using retry_transient_exhausts[of "\<lambda>k. Inl timeout_error :: thrown + nat" False]
    timeout_error_transient
  by (simp add: default_options_def)




section \<open>The pool: size, expired tokens, colliding keys\<close>

subsection \<open>Association lists\<close>

lemma update_fresh: "k \<notin> fst ` set al \<Longrightarrow> AList.update k v al = al @ [(k, v)]"
  by (induction al) auto

lemma length_update_present: "k \<in> fst ` set al \<Longrightarrow> length (AList.update k v al) = length al"
  by (induction al) auto

lemma set_update_subset: "set (AList.update k v al) \<subseteq> insert (k, v) (set al)"
  by (induction al) auto

lemma set_delete_subset: "set (AList.delete k al) \<subseteq> set al"
  by (auto simp: AList.delete_eq)

lemma fold_delete_props:
  "length (fold AList.delete ks al) \<le> length al
   \<and> set (fold AList.delete ks al) \<subseteq> set al
   \<and> (distinct (map fst al) \<longrightarrow> distinct (map fst (fold AList.delete ks al)))"
proof (induction ks arbitrary: al)
  case Nil
  then show ?case by simp
next
  case (Cons k ks)
  have l: "length (AList.delete k al) \<le> length al" by (rule length_delete_le)
  have s: "set (AList.delete k al) \<subseteq> set al" by (rule set_delete_subset)
  have d: "distinct (map fst al) \<longrightarrow> distinct (map fst (AList.delete k al))"
    by (simp add: distinct_delete)
  from Cons.IH[of "AList.delete k al"] l s d show ?case by auto
qed

lemma evictExpired_props:
  "length (evictExpired now p) \<le> length p"
  "set (evictExpired now p) \<subseteq> set p"
  "distinct (map fst p) \<Longrightarrow> distinct (map fst (evictExpired now p))"
  using fold_delete_props[of _ p] by (auto simp: evictExpired_def Let_def)

subsection \<open>An invariant of the pool\<close>

text \<open>
  Keys are distinct, there are at most MAX_POOL_SIZE entries, and every pooled client was
  constructed before now, under the key its entry records.
\<close>

definition pool_inv :: "ClientPool \<Rightarrow> bool" where
  "pool_inv s \<longleftrightarrow> distinct (map fst (pool s)) \<and> length (pool s) \<le> MAX_POOL_SIZE
     \<and> list_all (\<lambda>(k, p). clientId (client p) < constructed s \<and> tokenHash p = k) (pool s)"

subsection \<open>The four ways through getClient\<close>

lemma map_of_None_iff: "map_of al k = None \<longleftrightarrow> k \<notin> fst ` set al"
  by (simp add: map_of_eq_None_iff)

lemma getClient_expired:
  "isTokenExpired parse now token \<Longrightarrow>
   getClient parse now token s
     = (\<lparr>clientId = constructed s, authorization = token\<rparr>, s\<lparr>constructed := Suc (constructed s)\<rparr>)"
  by (simp add: getClient_def createNewClient_def)

lemma getClient_hit:
  "\<not> isTokenExpired parse now token \<Longrightarrow> map_of (pool s) (hashToken token) = Some pooled \<Longrightarrow>
   getClient parse now token s
     = (client pooled, s\<lparr>pool := AList.update (hashToken token) (pooled\<lparr>lastUsed := now\<rparr>) (pool s)\<rparr>)"
  by (simp add: getClient_def)

lemma getClient_miss_room:
  "\<not> isTokenExpired parse now token \<Longrightarrow> map_of (pool s) (hashToken token) = None \<Longrightarrow>
   length (pool s) < MAX_POOL_SIZE \<Longrightarrow>
   getClient parse now token s
     = (\<lparr>clientId = constructed s, authorization = token\<rparr>,
        s\<lparr>constructed := Suc (constructed s),
          pool := pool s @ [(hashToken token,
                    \<lparr>client = \<lparr>clientId = constructed s, authorization = token\<rparr>,
                     createdAt = now, lastUsed = now, tokenHash = hashToken token\<rparr>)]\<rparr>)"
proof -
  assume a: "\<not> isTokenExpired parse now token" "map_of (pool s) (hashToken token) = None"
    "length (pool s) < MAX_POOL_SIZE"
  from a(2) have "hashToken token \<notin> fst ` set (pool s)" by (simp add: map_of_None_iff)
  then show ?thesis using a
    by (simp add: getClient_def createNewClient_def Let_def update_fresh)
qed

lemma getClient_miss_full:
  "\<not> isTokenExpired parse now token \<Longrightarrow> map_of (pool s) (hashToken token) = None \<Longrightarrow>
   \<not> length (pool s) < MAX_POOL_SIZE \<Longrightarrow>
   getClient parse now token s
     = (\<lparr>clientId = constructed s, authorization = token\<rparr>, s\<lparr>constructed := Suc (constructed s)\<rparr>)"
  by (simp add: getClient_def createNewClient_def Let_def)

lemma getClient_cases:
  obtains (expired) "isTokenExpired parse now token"
  | (hit) pooled where "\<not> isTokenExpired parse now token" "map_of (pool s) (hashToken token) = Some pooled"
  | (room) "\<not> isTokenExpired parse now token" "map_of (pool s) (hashToken token) = None" "length (pool s) < MAX_POOL_SIZE"
  | (full) "\<not> isTokenExpired parse now token" "map_of (pool s) (hashToken token) = None" "\<not> length (pool s) < MAX_POOL_SIZE"
  by (cases "map_of (pool s) (hashToken token)") auto

lemma pool_inv_getClient: "pool_inv s \<Longrightarrow> pool_inv (snd (getClient parse now token s))"
proof (cases rule: getClient_cases[where parse=parse and now=now and token=token and s=s])
  case expired
  assume "pool_inv s"
  then show ?thesis
    by (auto simp: getClient_expired[OF expired] pool_inv_def list_all_iff)
next
  case (hit pooled)
  assume inv: "pool_inv s"
  have mem: "(hashToken token, pooled) \<in> set (pool s)" using hit(2) by (rule map_of_SomeD)
  then have "hashToken token \<in> fst ` set (pool s)" by force
  then have len: "length (AList.update (hashToken token) (pooled\<lparr>lastUsed := now\<rparr>) (pool s)) = length (pool s)"
    by (rule length_update_present)
  have "list_all (\<lambda>(k, p). clientId (client p) < constructed s \<and> tokenHash p = k)
          (AList.update (hashToken token) (pooled\<lparr>lastUsed := now\<rparr>) (pool s))"
    using inv mem set_update_subset[of "hashToken token" "pooled\<lparr>lastUsed := now\<rparr>" "pool s"]
    by (fastforce simp: pool_inv_def list_all_iff)
  with inv len show ?thesis
    by (simp add: getClient_hit[OF hit] pool_inv_def distinct_update)
next
  case room
  assume "pool_inv s"
  then show ?thesis using room
    by (auto simp: getClient_miss_room[OF room] pool_inv_def list_all_iff map_of_None_iff)
next
  case full
  assume "pool_inv s"
  then show ?thesis
    by (auto simp: getClient_miss_full[OF full] pool_inv_def list_all_iff)
qed

lemma cleanup_no_trim:
  "length (pool s) \<le> MAX_POOL_SIZE \<Longrightarrow> cleanup now s = s\<lparr>pool := evictExpired now (pool s)\<rparr>"
  using evictExpired_props(1)[where now=now and p="pool s"] by (simp add: cleanup_def Let_def)

lemma pool_inv_cleanup: "pool_inv s \<Longrightarrow> pool_inv (cleanup now s)"
  using evictExpired_props[where now=now and p="pool s"]
  by (auto simp: cleanup_no_trim pool_inv_def list_all_iff)

lemma pool_inv_step: "pool_inv s \<Longrightarrow> pool_inv (pool_step parse op s)"
  by (cases op) (simp_all add: pool_inv_getClient pool_inv_cleanup, simp add: pool_inv_def clear_pool_def)

lemma pool_inv_fold: "pool_inv s \<Longrightarrow> pool_inv (fold (pool_step parse) ops s)"
  by (induction ops arbitrary: s) (simp_all add: pool_inv_step)

lemma pool_inv_run: "pool_inv (pool_run parse ops)"
  unfolding pool_run_def by (rule pool_inv_fold) (simp add: pool_inv_def new_pool_def)




text \<open>
  C9. In every state the pool reaches from the empty pool by calls of
  \<^verbatim>\<open>getClient\<close>, cleanup passes and \<^verbatim>\<open>clear\<close>, in whatever order and at whatever
  times, its size is at most MAX_POOL_SIZE = 50 and its keys are distinct. A cleanup pass
  run there finds at most 50 entries left after the eviction by age, so the test
  \<^verbatim>\<open>this.pool.size > this.MAX_POOL_SIZE\<close> fails and the pass is the eviction by age
  alone: the least-recently-used trimming is never run. And in any state at all,
  \<^verbatim>\<open>getClient\<close> leaves the size as it is, or adds one entry to a pool that held
  fewer than 50.
\<close>

theorem pool_size_bounded:
  "getSize (pool_run parse ops) \<le> MAX_POOL_SIZE
   \<and> MAX_POOL_SIZE = 50
   \<and> distinct (map fst (pool (pool_run parse ops)))
   \<and> \<not> length (evictExpired now (pool (pool_run parse ops))) > MAX_POOL_SIZE
   \<and> cleanup now (pool_run parse ops)
       = (pool_run parse ops)\<lparr>pool := evictExpired now (pool (pool_run parse ops))\<rparr>
   \<and> (length (pool (snd (getClient parse now token s))) = length (pool s)
      \<or> length (pool s) < MAX_POOL_SIZE
        \<and> length (pool (snd (getClient parse now token s))) = Suc (length (pool s)))"
proof -
  have inv: "pool_inv (pool_run parse ops)" by (rule pool_inv_run)
  then have le: "length (pool (pool_run parse ops)) \<le> MAX_POOL_SIZE" by (simp add: pool_inv_def)
  have ev: "length (evictExpired now (pool (pool_run parse ops))) \<le> MAX_POOL_SIZE"
    using evictExpired_props(1)[where now=now and p="pool (pool_run parse ops)"] le by simp
  have grow: "length (pool (snd (getClient parse now token s))) = length (pool s)
      \<or> length (pool s) < MAX_POOL_SIZE
        \<and> length (pool (snd (getClient parse now token s))) = Suc (length (pool s))"
  proof (cases rule: getClient_cases[where parse=parse and now=now and token=token and s=s])
    case expired
    then show ?thesis by (simp add: getClient_expired)
  next
    case (hit pooled)
    have "(hashToken token, pooled) \<in> set (pool s)" using hit(2) by (rule map_of_SomeD)
    then have "hashToken token \<in> fst ` set (pool s)" by force
    then show ?thesis by (simp add: getClient_hit[OF hit] length_update_present)
  next
    case room
    then show ?thesis by (simp add: getClient_miss_room)
  next
    case full
    then show ?thesis by (simp add: getClient_miss_full)
  qed
  show ?thesis using inv le ev grow cleanup_no_trim[OF le]
    by (simp add: getSize_def pool_inv_def MAX_POOL_SIZE_def)
qed



subsection \<open>A run of calls with fresh keys\<close>

text \<open>The entry \<^verbatim>\<open>getClient\<close> inserts for call number \<open>i\<close>, made at \<open>now\<close>.\<close>

definition inserted_entry :: "nat \<times> int \<times> string \<Rightarrow> string \<times> PooledClient" where
  "inserted_entry = (\<lambda>(i, now, token).
     (hashToken token,
      \<lparr>client = \<lparr>clientId = i, authorization = token\<rparr>, createdAt = now, lastUsed = now,
       tokenHash = hashToken token\<rparr>))"

text \<open>One call of \<^verbatim>\<open>getClient\<close> per pair of a time and a token.\<close>

definition get_all :: "(int \<times> string) list \<Rightarrow> pool_op list" where
  "get_all cs = map (\<lambda>(now, token). GetClient now token) cs"

lemma fst_inserted_entry: "fst (inserted_entry (i, now, token)) = hashToken token"
  by (simp add: inserted_entry_def)

lemma pool_after_misses:
  assumes "list_all (\<lambda>(now, token). \<not> isTokenExpired parse now token) cs"
    and "distinct (map (\<lambda>c. hashToken (snd c)) cs)"
    and "list_all (\<lambda>(now, token). hashToken token \<notin> fst ` set (pool s)) cs"
  shows "pool (fold (pool_step parse) (get_all cs) s)
           = pool s @ take (MAX_POOL_SIZE - length (pool s))
                        (map inserted_entry (zip [constructed s ..< constructed s + length cs] cs))
       \<and> constructed (fold (pool_step parse) (get_all cs) s) = constructed s + length cs"
  using assms
proof (induction cs arbitrary: s)
  case Nil
  then show ?case by (simp add: get_all_def)
next
  case (Cons c0 cs)
  obtain now token where c0: "c0 = (now, token)" by (cases c0)
  have ne: "\<not> isTokenExpired parse now token" using Cons.prems(1) by (simp add: c0)
  have notin: "hashToken token \<notin> fst ` set (pool s)" using Cons.prems(3) by (simp add: c0)
  then have miss: "map_of (pool s) (hashToken token) = None" by (simp add: map_of_None_iff)
  let ?s1 = "snd (getClient parse now token s)"
  have fold1: "fold (pool_step parse) (get_all (c0 # cs)) s = fold (pool_step parse) (get_all cs) ?s1"
    by (simp add: get_all_def c0)
  have rest_ne: "list_all (\<lambda>(now, token). \<not> isTokenExpired parse now token) cs"
    using Cons.prems(1) by simp
  have rest_d: "distinct (map (\<lambda>c. hashToken (snd c)) cs)" using Cons.prems(2) by simp
  have rest_other: "list_all (\<lambda>(now', token'). hashToken token' \<noteq> hashToken token) cs"
    using Cons.prems(2) by (force simp: c0 list_all_iff)
  have up: "[constructed s ..< constructed s + length (c0 # cs)]
              = constructed s # [Suc (constructed s) ..< Suc (constructed s) + length cs]"
    by (simp add: upt_rec)
  show ?case
  proof (cases "length (pool s) < MAX_POOL_SIZE")
    case True
    have g: "getClient parse now token s
      = (\<lparr>clientId = constructed s, authorization = token\<rparr>,
         s\<lparr>constructed := Suc (constructed s),
           pool := pool s @ [inserted_entry (constructed s, now, token)]\<rparr>)"
      using getClient_miss_room[OF ne miss True] by (simp add: inserted_entry_def)
    have p1: "pool ?s1 = pool s @ [inserted_entry (constructed s, now, token)]"
      and c1: "constructed ?s1 = Suc (constructed s)" by (simp_all add: g)
    have rest_notin: "list_all (\<lambda>(now, token). hashToken token \<notin> fst ` set (pool ?s1)) cs"
      using Cons.prems(3) rest_other by (auto simp: p1 list_all_iff fst_inserted_entry)
    from Cons.IH[OF rest_ne rest_d rest_notin]
    have IH: "pool (fold (pool_step parse) (get_all cs) ?s1)
           = pool ?s1 @ take (MAX_POOL_SIZE - length (pool ?s1))
                        (map inserted_entry (zip [constructed ?s1 ..< constructed ?s1 + length cs] cs))"
      and IHc: "constructed (fold (pool_step parse) (get_all cs) ?s1) = constructed ?s1 + length cs"
      by simp_all
    have tk: "take (MAX_POOL_SIZE - length (pool s)) (x # xs)
                = x # take (MAX_POOL_SIZE - length (pool s) - 1) xs" for x :: "string \<times> PooledClient" and xs
      using True by (cases "MAX_POOL_SIZE - length (pool s)") simp_all
    show ?thesis
      unfolding fold1 IH IHc up
      by (simp add: p1 c1 c0 tk)
  next
    case False
    have g: "getClient parse now token s
      = (\<lparr>clientId = constructed s, authorization = token\<rparr>, s\<lparr>constructed := Suc (constructed s)\<rparr>)"
      using getClient_miss_full[OF ne miss False] .
    have p1: "pool ?s1 = pool s" and c1: "constructed ?s1 = Suc (constructed s)" by (simp_all add: g)
    have rest_notin: "list_all (\<lambda>(now, token). hashToken token \<notin> fst ` set (pool ?s1)) cs"
      using Cons.prems(3) by (simp add: p1)
    from Cons.IH[OF rest_ne rest_d rest_notin]
    have IH: "pool (fold (pool_step parse) (get_all cs) ?s1)
           = pool ?s1 @ take (MAX_POOL_SIZE - length (pool ?s1))
                        (map inserted_entry (zip [constructed ?s1 ..< constructed ?s1 + length cs] cs))"
      and IHc: "constructed (fold (pool_step parse) (get_all cs) ?s1) = constructed ?s1 + length cs"
      by simp_all
    show ?thesis
      unfolding fold1 IH IHc using False
      by (simp add: p1 c1)
  qed
qed

lemma evictExpired_none:
  assumes "list_all (\<lambda>(key, pooled). \<not> (now - lastUsed pooled > CLIENT_TTL
                                       \<or> now - createdAt pooled > CLIENT_TTL * 2)) p"
  shows "evictExpired now p = p"
proof -
  have "filter (\<lambda>(key, pooled). now - lastUsed pooled > CLIENT_TTL
                                       \<or> now - createdAt pooled > CLIENT_TTL * 2) p = []"
    using assms by (auto simp: filter_empty_conv list_all_iff)
  then show ?thesis by (simp add: evictExpired_def)
qed

subsection \<open>Tokens to run the pool on\<close>

text \<open>
  The segment \<^verbatim>\<open>eyJleHAiOjQxMDI0NDQ4MDB9\<close> is the base64 of
  \<^verbatim>\<open>{"exp":4102444800}\<close>; \<open>demo_parse\<close> decodes it, and nothing else. The 55
  tokens share the header \<^verbatim>\<open>h\<close> and this payload and differ in the one
  character of the signature; call number \<open>i\<close> is made at \<open>1000 * i\<close> ms.
\<close>

definition demo_parse :: "string \<Rightarrow> jwt_payload option" where
  "demo_parse segment =
     (if segment = ''eyJleHAiOjQxMDI0NDQ4MDB9'' then Some \<lparr>exp = Some 4102444800\<rparr> else None)"

definition demo_prefix :: string where
  "demo_prefix = ''h.eyJleHAiOjQxMDI0NDQ4MDB9.''"

definition demo_tokens :: "string list" where
  "demo_tokens = map (\<lambda>c. demo_prefix @ [c])
     ''ABCDEFGHIJKLMNOPQRSTUVWXYZabcdefghijklmnopqrstuvwxyz012''"

definition demo_calls :: "(int \<times> string) list" where
  "demo_calls = zip (map (\<lambda>i. 1000 * int i) [0..<55]) demo_tokens"


lemma demo_prefix_hash: "foldl hash_step 0 demo_prefix = - 1914540064"
  by (simp add: demo_prefix_def hash_step_def to_int32_def)

lemma demo_hash: "hashToken (demo_prefix @ [c]) = toString36 (hash_step (- 1914540064) c)"
proof -
  have "length (demo_prefix @ [c]) = 28" by (simp add: demo_prefix_def)
  then have "take (min (length (demo_prefix @ [c])) 100) (demo_prefix @ [c]) = demo_prefix @ [c]"
    by simp
  then show ?thesis by (simp add: hashToken_def demo_prefix_hash)
qed

lemma demo_hashes:
  "map hashToken demo_tokens =
    [''cvoe3l'', ''cvoe3m'', ''cvoe3n'', ''cvoe3o'', ''cvoe3p'', ''cvoe3q'',
     ''cvoe3r'', ''cvoe3s'', ''cvoe3t'', ''cvoe3u'', ''cvoe3v'', ''cvoe3w'',
     ''cvoe3x'', ''cvoe3y'', ''cvoe3z'', ''cvoe40'', ''cvoe41'', ''cvoe42'',
     ''cvoe43'', ''cvoe44'', ''cvoe45'', ''cvoe46'', ''cvoe47'', ''cvoe48'',
     ''cvoe49'', ''cvoe4a'', ''cvoe4h'', ''cvoe4i'', ''cvoe4j'', ''cvoe4k'',
     ''cvoe4l'', ''cvoe4m'', ''cvoe4n'', ''cvoe4o'', ''cvoe4p'', ''cvoe4q'',
     ''cvoe4r'', ''cvoe4s'', ''cvoe4t'', ''cvoe4u'', ''cvoe4v'', ''cvoe4w'',
     ''cvoe4x'', ''cvoe4y'', ''cvoe4z'', ''cvoe50'', ''cvoe51'', ''cvoe52'',
     ''cvoe53'', ''cvoe54'', ''cvoe55'', ''cvoe56'', ''cvoe34'', ''cvoe35'',
     ''cvoe36'']"
  by (simp add: demo_tokens_def demo_hash hash_step_def to_int32_def toString36_def nat36.simps digit36_def)

lemma length_demo_tokens: "length demo_tokens = 55"
  by (simp add: demo_tokens_def)

lemma length_demo_calls: "length demo_calls = 55"
  by (simp add: demo_calls_def length_demo_tokens)

lemma map_snd_demo_calls: "map snd demo_calls = demo_tokens"
  by (simp add: demo_calls_def length_demo_tokens)

lemma demo_distinct: "distinct (map (\<lambda>c. hashToken (snd c)) demo_calls)"
proof -
  have "map (\<lambda>c. hashToken (snd c)) demo_calls = map hashToken (map snd demo_calls)"
    by (simp add: comp_def)
  also have "\<dots> = map hashToken demo_tokens" by (simp only: map_snd_demo_calls)
  finally show ?thesis by (simp only: demo_hashes) simp
qed

lemma demo_decode: "c \<noteq> CHR ''.'' \<Longrightarrow> decodeJWT demo_parse (demo_prefix @ [c]) = Some \<lparr>exp = Some 4102444800\<rparr>"
  by (simp add: decodeJWT_def demo_prefix_def demo_parse_def base64url_to_base64_def)

lemma demo_valid:
  assumes "(now, token) \<in> set demo_calls"
  shows "\<not> isTokenExpired demo_parse now token \<and> 0 \<le> now \<and> now \<le> 54000"
proof -
  from assms have t: "token \<in> set demo_tokens" and n: "now \<in> set (map (\<lambda>i. 1000 * int i) [0..<55])"
    by (auto simp: demo_calls_def dest: set_zip_leftD set_zip_rightD)
  from n have bounds: "0 \<le> now \<and> now \<le> 54000" by auto
  from t obtain c where c: "token = demo_prefix @ [c]" "c \<noteq> CHR ''.''"
    by (auto simp: demo_tokens_def)
  have "now div 1000 \<le> 54" using bounds by linarith
  then show ?thesis using bounds by (simp add: isTokenExpired_def c demo_decode)
qed

lemma pool_after_inserts_then_cleanup:
  assumes "list_all (\<lambda>(now, token). \<not> isTokenExpired parse now token) cs"
    and "distinct (map (\<lambda>c. hashToken (snd c)) cs)"
    and "list_all (\<lambda>(now, token). tc - now \<le> CLIENT_TTL) cs"
  shows "pool (pool_run parse (get_all cs @ [Cleanup tc]))
           = take MAX_POOL_SIZE (map inserted_entry (zip [0 ..< length cs] cs))"
proof -
  let ?s = "fold (pool_step parse) (get_all cs) new_pool"
  let ?p = "take MAX_POOL_SIZE (map inserted_entry (zip [0 ..< length cs] cs))"
  have "list_all (\<lambda>(now, token). hashToken token \<notin> fst ` set (pool new_pool)) cs"
    by (simp add: new_pool_def list_all_iff split_beta)
  from pool_after_misses[OF assms(1,2) this]
  have p: "pool ?s = ?p" by (simp add: new_pool_def)
  have len: "length (pool ?s) \<le> MAX_POOL_SIZE" by (simp add: p)
  have fresh: "list_all (\<lambda>(key, pooled). \<not> (tc - lastUsed pooled > CLIENT_TTL
                                       \<or> tc - createdAt pooled > CLIENT_TTL * 2)) ?p"
  proof -
    have "\<not> (tc - lastUsed pooled > CLIENT_TTL \<or> tc - createdAt pooled > CLIENT_TTL * 2)"
      if "(key, pooled) \<in> set ?p" for key pooled
    proof -
      from that have "(key, pooled) \<in> set (map inserted_entry (zip [0 ..< length cs] cs))"
        by (rule in_set_takeD)
      then obtain i now token where e: "(key, pooled) = inserted_entry (i, now, token)"
        and m: "(now, token) \<in> set cs"
        by (auto dest: set_zip_rightD)
      from m assms(3) have "tc - now \<le> CLIENT_TTL" by (auto simp: list_all_iff)
      moreover have "lastUsed pooled = now" "createdAt pooled = now"
        using e by (simp_all add: inserted_entry_def)
      ultimately show ?thesis by (simp add: CLIENT_TTL_def)
    qed
    then show ?thesis by (auto simp: list_all_iff)
  qed
  have "pool_run parse (get_all cs @ [Cleanup tc]) = cleanup tc ?s"
    by (simp add: pool_run_def)
  also have "pool (cleanup tc ?s) = evictExpired tc (pool ?s)"
    by (simp add: cleanup_no_trim[OF len])
  also have "\<dots> = ?p" unfolding p by (rule evictExpired_none[OF fresh])
  finally show ?thesis .
qed

lemma map_fst_inserted:
  "length is = length cs \<Longrightarrow>
   map fst (map inserted_entry (zip is cs)) = map (\<lambda>c. hashToken (snd c)) cs"
  by (induction "is" cs rule: list_induct2) (simp_all add: inserted_entry_def split_beta)

lemma map_auth_inserted:
  "length is = length cs \<Longrightarrow>
   map (\<lambda>e. authorization (client (snd e))) (map inserted_entry (zip is cs)) = map snd cs"
  by (induction "is" cs rule: list_induct2) (simp_all add: inserted_entry_def split_beta)

text \<open>
  C4, as amended. Starting from the empty pool, after \<^verbatim>\<open>getClient\<close> has been called
  with MAX_POOL_SIZE + 5 tokens, none expired at its call and no two with the same key,
  and one cleanup pass has run no later than CLIENT_TTL after each call, the pool holds
  exactly MAX_POOL_SIZE entries: those of the first MAX_POOL_SIZE tokens, in the order of
  the calls, each with the client constructed for its token. The last 5 tokens have no
  entry.
\<close>

theorem pool_keeps_first_inserted:
  assumes "length cs = MAX_POOL_SIZE + 5"
    and "list_all (\<lambda>(now, token). \<not> isTokenExpired parse now token) cs"
    and "distinct (map (\<lambda>c. hashToken (snd c)) cs)"
    and "list_all (\<lambda>(now, token). tc - now \<le> CLIENT_TTL) cs"
  shows "getSize (pool_run parse (get_all cs @ [Cleanup tc])) = MAX_POOL_SIZE
     \<and> map fst (pool (pool_run parse (get_all cs @ [Cleanup tc])))
         = map (\<lambda>c. hashToken (snd c)) (take MAX_POOL_SIZE cs)
     \<and> map (\<lambda>e. authorization (client (snd e))) (pool (pool_run parse (get_all cs @ [Cleanup tc])))
         = map snd (take MAX_POOL_SIZE cs)
     \<and> list_all (\<lambda>c. hashToken (snd c) \<notin> fst ` set (pool (pool_run parse (get_all cs @ [Cleanup tc]))))
         (drop MAX_POOL_SIZE cs)"
proof -
  let ?S = "pool_run parse (get_all cs @ [Cleanup tc])"
  have p: "pool ?S = take MAX_POOL_SIZE (map inserted_entry (zip [0 ..< length cs] cs))"
    using assms(2,3,4) by (rule pool_after_inserts_then_cleanup)
  have size: "getSize ?S = MAX_POOL_SIZE" by (simp add: getSize_def p assms(1))
  have keys: "map fst (pool ?S) = map (\<lambda>c. hashToken (snd c)) (take MAX_POOL_SIZE cs)"
    unfolding p by (simp add: take_map[symmetric] map_fst_inserted del: map_map)
  have auth: "map (\<lambda>e. authorization (client (snd e))) (pool ?S) = map snd (take MAX_POOL_SIZE cs)"
    unfolding p by (simp add: take_map[symmetric] map_auth_inserted del: map_map)
  have "distinct (map (\<lambda>c. hashToken (snd c)) (take MAX_POOL_SIZE cs @ drop MAX_POOL_SIZE cs))"
    using assms(3) by simp
  then have "set (map (\<lambda>c. hashToken (snd c)) (take MAX_POOL_SIZE cs))
               \<inter> set (map (\<lambda>c. hashToken (snd c)) (drop MAX_POOL_SIZE cs)) = {}"
    unfolding map_append distinct_append by blast
  then have out: "list_all (\<lambda>c. hashToken (snd c) \<notin> fst ` set (pool ?S)) (drop MAX_POOL_SIZE cs)"
    unfolding list_all_iff set_map[symmetric] keys by auto
  from size keys auth out show ?thesis by blast
qed

lemma demo_all_valid: "list_all (\<lambda>(now, token). \<not> isTokenExpired demo_parse now token) demo_calls"
  using demo_valid by (auto simp: list_all_iff)

lemma demo_all_recent: "list_all (\<lambda>(now, token). 60000 - now \<le> CLIENT_TTL) demo_calls"
  using demo_valid by (fastforce simp: list_all_iff CLIENT_TTL_def)

lemma demo_pool_keys:
  "map fst (pool (pool_run demo_parse (get_all demo_calls @ [Cleanup 60000])))
     = take 50 (map hashToken demo_tokens)"
proof -
  have "pool (pool_run demo_parse (get_all demo_calls @ [Cleanup 60000]))
          = take MAX_POOL_SIZE (map inserted_entry (zip [0 ..< length demo_calls] demo_calls))"
    using demo_all_valid demo_distinct demo_all_recent by (rule pool_after_inserts_then_cleanup)
  then have "map fst (pool (pool_run demo_parse (get_all demo_calls @ [Cleanup 60000])))
          = take MAX_POOL_SIZE (map (\<lambda>c. hashToken (snd c)) demo_calls)"
    by (simp add: take_map[symmetric] map_fst_inserted del: map_map)
  also have "map (\<lambda>c. hashToken (snd c)) demo_calls = map hashToken (map snd demo_calls)"
    by (simp add: comp_def)
  finally show ?thesis by (simp add: map_snd_demo_calls MAX_POOL_SIZE_def)
qed

theorem pool_keeps_first_inserted_witness:
  "length demo_calls = MAX_POOL_SIZE + 5
   \<and> distinct (map (\<lambda>c. hashToken (snd c)) demo_calls)
   \<and> getSize (pool_run demo_parse (get_all demo_calls @ [Cleanup 60000])) = 50
   \<and> map fst (pool (pool_run demo_parse (get_all demo_calls @ [Cleanup 60000])))
       = map (\<lambda>c. hashToken (snd c)) (take 50 demo_calls)
   \<and> map (\<lambda>e. authorization (client (snd e)))
         (pool (pool_run demo_parse (get_all demo_calls @ [Cleanup 60000])))
       = take 50 demo_tokens"
proof -
  have len: "length demo_calls = MAX_POOL_SIZE + 5"
    by (simp add: length_demo_calls MAX_POOL_SIZE_def)
  have t: "map snd (take 50 demo_calls) = take 50 demo_tokens"
    by (simp add: take_map[symmetric] map_snd_demo_calls)
  show ?thesis
    using pool_keeps_first_inserted[OF len demo_all_valid demo_distinct demo_all_recent]
      len demo_distinct t
    by (simp add: MAX_POOL_SIZE_def)
qed

text \<open>
  C4 as stated fails. Of 55 tokens used one per second, the one used last has no entry
  after the cleanup pass and the one used first has one: the entries kept are not those
  of the 50 most recently used tokens.
\<close>

theorem pool_retains_most_recent_counterexample:
  "hashToken (demo_tokens ! 54)
      \<notin> set (map fst (pool (pool_run demo_parse (get_all demo_calls @ [Cleanup 60000]))))
   \<and> hashToken (demo_tokens ! 0)
      \<in> set (map fst (pool (pool_run demo_parse (get_all demo_calls @ [Cleanup 60000]))))
   \<and> set (map fst (pool (pool_run demo_parse (get_all demo_calls @ [Cleanup 60000]))))
      \<noteq> set (map hashToken (drop 5 demo_tokens))"
proof -
  let ?K = "set (map fst (pool (pool_run demo_parse (get_all demo_calls @ [Cleanup 60000]))))"
  have last: "hashToken (demo_tokens ! 54) = ''cvoe36''"
    using arg_cong[OF demo_hashes, of "\<lambda>xs. xs ! 54"] by (simp add: length_demo_tokens)
  have first: "hashToken (demo_tokens ! 0) = ''cvoe3l''"
    using arg_cong[OF demo_hashes, of "\<lambda>xs. xs ! 0"] by (simp add: length_demo_tokens)
  have a: "hashToken (demo_tokens ! 54) \<notin> ?K"
    unfolding last demo_pool_keys demo_hashes by simp
  have b: "hashToken (demo_tokens ! 0) \<in> ?K"
    unfolding first demo_pool_keys demo_hashes by simp
  have "hashToken (demo_tokens ! 54) \<in> set (map hashToken (drop 5 demo_tokens))"
    unfolding last drop_map[symmetric] demo_hashes by simp
  with a have c: "?K \<noteq> set (map hashToken (drop 5 demo_tokens))" by blast
  from a b c show ?thesis by blast
qed












section \<open>The queue: the drain loop\<close>

lemma drain_stop:
  "queue s = [] \<Longrightarrow> currentConcurrent s \<le> 0 \<Longrightarrow>
   drain s = s\<lparr>processing := False, loopAt := NotRunning\<rparr>"
  by (subst drain.simps) simp

lemma drain_outer:
  "queue s = [] \<Longrightarrow> currentConcurrent s > 0 \<Longrightarrow>
   drain s = s\<lparr>loopAt := SleepOuter (clock s + 50)\<rparr>"
  by (subst drain.simps) simp

lemma drain_inner:
  "queue s \<noteq> [] \<Longrightarrow> currentConcurrent s \<ge> MAX_CONCURRENT \<Longrightarrow>
   drain s = s\<lparr>loopAt := SleepInner (clock s + 10)\<rparr>"
  by (subst drain.simps) simp

lemma drain_dispatch:
  "queue s \<noteq> [] \<Longrightarrow> currentConcurrent s < MAX_CONCURRENT \<Longrightarrow> drain s = drain (dispatch s)"
  by (subst drain.simps) simp

lemma drain_cases:
  obtains (stop) "queue s = []" "currentConcurrent s \<le> 0"
  | (outer) "queue s = []" "currentConcurrent s > 0"
  | (inner) "queue s \<noteq> []" "currentConcurrent s \<ge> MAX_CONCURRENT"
  | (dispatch) "queue s \<noteq> []" "currentConcurrent s < MAX_CONCURRENT"
  by (cases "queue s = []"; cases "currentConcurrent s \<le> 0";
      cases "currentConcurrent s \<ge> MAX_CONCURRENT") auto

lemma drain_preserves:
  assumes "\<And>s. queue s \<noteq> [] \<Longrightarrow> Q (dispatch s) = Q s"
    and "\<And>s l. Q (s\<lparr>loopAt := l\<rparr>) = Q s"
    and "\<And>s. Q (s\<lparr>processing := False, loopAt := NotRunning\<rparr>) = Q s"
  shows "Q (drain s) = Q s"
proof (induction s rule: drain.induct)
  case (1 s)
  show ?case
  proof (cases rule: drain_cases[where s=s])
    case stop
    then show ?thesis by (simp add: drain_stop assms(3))
  next
    case outer
    then show ?thesis by (simp add: drain_outer assms(2))
  next
    case inner
    then show ?thesis by (simp add: drain_inner assms(2))
  next
    case dispatch
    then have "Q (drain (dispatch s)) = Q (dispatch s)" using "1.IH" by simp
    with dispatch show ?thesis by (simp add: drain_dispatch assms(1))
  qed
qed

text \<open>
  Two views of the state: the units that have entered the main queue so far, in order
  (those dispatched, then those waiting), and the units the loop has in hand (those in
  flight, then those waiting). A dispatch moves a unit within each and changes neither.
\<close>

definition entered :: "('f, 'e, 'v) RequestQueue \<Rightarrow> 'f QueuedRequest list" where
  "entered s = dispatched s @ queue s"

definition in_hand :: "('f, 'e, 'v) RequestQueue \<Rightarrow> 'f QueuedRequest list" where
  "in_hand s = running s @ queue s"

lemma dispatch_Cons:
  "queue s = r # rest \<Longrightarrow>
   dispatch s = s\<lparr>queue := rest, currentConcurrent := currentConcurrent s + 1,
                  running := running s @ [r], dispatched := dispatched s @ [r]\<rparr>"
  by (simp add: dispatch_def)

lemma drain_pendingBatches [simp]: "pendingBatches (drain s) = pendingBatches s"
  by (rule drain_preserves) (auto simp: dispatch_def split: list.splits)

lemma drain_promises [simp]: "promises (drain s) = promises s"
  by (rule drain_preserves) (auto simp: dispatch_def split: list.splits)

lemma drain_clock [simp]: "clock (drain s) = clock s"
  by (rule drain_preserves) (auto simp: dispatch_def split: list.splits)

lemma drain_entered [simp]: "entered (drain s) = entered s"
  by (rule drain_preserves) (auto simp: dispatch_def entered_def split: list.splits)

lemma drain_in_hand [simp]: "in_hand (drain s) = in_hand s"
  by (rule drain_preserves) (auto simp: dispatch_def in_hand_def split: list.splits)

lemma drain_slack [simp]:
  "currentConcurrent (drain s) - int (length (running (drain s)))
     = currentConcurrent s - int (length (running s))"
  by (rule drain_preserves[where Q="\<lambda>s. currentConcurrent s - int (length (running s))"])
     (auto simp: dispatch_def split: list.splits)

lemma drain_ceiling:
  "currentConcurrent s \<le> MAX_CONCURRENT \<Longrightarrow> currentConcurrent (drain s) \<le> MAX_CONCURRENT"
proof (induction s rule: drain.induct)
  case (1 s)
  show ?case
  proof (cases rule: drain_cases[where s=s])
    case stop
    with "1.prems" show ?thesis by (simp add: drain_stop)
  next
    case outer
    with "1.prems" show ?thesis by (simp add: drain_outer)
  next
    case inner
    with "1.prems" show ?thesis by (simp add: drain_inner)
  next
    case dispatch
    then have "currentConcurrent (dispatch s) \<le> MAX_CONCURRENT"
      by (auto simp: dispatch_def split: list.splits)
    with "1.IH" dispatch show ?thesis by (simp add: drain_dispatch)
  qed
qed

text \<open>
  When the loop has run to its next await it is asleep, or it has left with nothing
  queued and nothing counted in flight.
\<close>

lemma drain_rest:
  "processing s \<Longrightarrow>
   (processing (drain s) \<longleftrightarrow> loopAt (drain s) \<noteq> NotRunning)
   \<and> (\<not> processing (drain s) \<longrightarrow> queue (drain s) = [] \<and> currentConcurrent (drain s) \<le> 0)"
proof (induction s rule: drain.induct)
  case (1 s)
  show ?case
  proof (cases rule: drain_cases[where s=s])
    case stop
    with "1.prems" show ?thesis by (simp add: drain_stop)
  next
    case outer
    with "1.prems" show ?thesis by (simp add: drain_outer)
  next
    case inner
    with "1.prems" show ?thesis by (simp add: drain_inner)
  next
    case dispatch
    from "1.prems" have "processing (dispatch s)"
      by (auto simp: dispatch_def split: list.splits)
    with "1.IH" dispatch show ?thesis by (simp add: drain_dispatch)
  qed
qed

section \<open>The queue: runs\<close>

lemma run_snoc: "run (evs @ [e]) = step e (run evs)"
  by (simp add: run_def)

lemma run_Nil: "run [] = new_queue"
  by (simp add: run_def)

subsection \<open>The ceiling and the counter\<close>

lemma processQueue_ceiling:
  "currentConcurrent s \<le> MAX_CONCURRENT \<Longrightarrow> currentConcurrent (processQueue s) \<le> MAX_CONCURRENT"
  by (simp add: processQueue_def drain_ceiling)

lemma processBatch_ceiling:
  "currentConcurrent s \<le> MAX_CONCURRENT \<Longrightarrow> currentConcurrent (processBatch k s) \<le> MAX_CONCURRENT"
  by (auto simp: processBatch_def Let_def processQueue_ceiling split: option.splits)

lemma addToBatch_ceiling:
  "currentConcurrent s \<le> MAX_CONCURRENT \<Longrightarrow> currentConcurrent (addToBatch k r s) \<le> MAX_CONCURRENT"
  by (auto simp: addToBatch_def Let_def processBatch_ceiling)

lemma queueRequest_ceiling:
  "currentConcurrent s \<le> MAX_CONCURRENT \<Longrightarrow>
   currentConcurrent (snd (queueRequest f options s)) \<le> MAX_CONCURRENT"
  by (auto simp: queueRequest_def Let_def processQueue_ceiling addToBatch_ceiling split: option.splits)

lemma resume_ceiling:
  "currentConcurrent s \<le> MAX_CONCURRENT \<Longrightarrow> currentConcurrent (resume s) \<le> MAX_CONCURRENT"
proof -
  assume le: "currentConcurrent s \<le> MAX_CONCURRENT"
  have d: "currentConcurrent (drain (dispatch s)) \<le> MAX_CONCURRENT"
    if "\<not> (currentConcurrent s \<ge> MAX_CONCURRENT \<and> queue s \<noteq> [])" "queue s \<noteq> []"
  proof (rule drain_ceiling)
    show "currentConcurrent (dispatch s) \<le> MAX_CONCURRENT"
      using that by (auto simp: dispatch_def split: list.splits)
  qed
  show ?thesis using le d
    by (auto simp: resume_def drain_ceiling split: loop_at.splits)
qed

lemma step_ceiling:
  "currentConcurrent s \<le> MAX_CONCURRENT \<Longrightarrow> currentConcurrent (step e s) \<le> MAX_CONCURRENT"
proof (cases e)
  case (QueueRequest f options)
  then show "currentConcurrent s \<le> MAX_CONCURRENT \<Longrightarrow> ?thesis"
    by (simp add: queueRequest_ceiling)
next
  case (BatchTimer k)
  then show "currentConcurrent s \<le> MAX_CONCURRENT \<Longrightarrow> ?thesis"
    by (auto simp: processBatch_ceiling split: option.splits)
next
  case LoopTimer
  then show "currentConcurrent s \<le> MAX_CONCURRENT \<Longrightarrow> ?thesis"
    by (simp add: resume_ceiling)
next
  case (Settles p result)
  then show "currentConcurrent s \<le> MAX_CONCURRENT \<Longrightarrow> ?thesis"
    by (auto simp: executeRequest_settled_def Let_def split: list.splits sum.splits)
next
  case (Tick d)
  then show "currentConcurrent s \<le> MAX_CONCURRENT \<Longrightarrow> ?thesis" by simp
next
  case Clear
  then show "currentConcurrent s \<le> MAX_CONCURRENT \<Longrightarrow> ?thesis" by (simp add: clear_def)
qed

lemma run_ceiling: "currentConcurrent (run evs) \<le> MAX_CONCURRENT"
proof (induction evs rule: rev_induct)
  case Nil
  show ?case by (simp add: run_Nil new_queue_def MAX_CONCURRENT_def)
next
  case (snoc e evs)
  then show ?case by (simp add: run_snoc step_ceiling)
qed

subsection \<open>What each operation does to the units\<close>

text \<open>The batch pending under a key, and the units it holds (none when there is no batch).\<close>

definition batch_of :: "('f, 'e, 'v) RequestQueue \<Rightarrow> string \<Rightarrow> 'f RequestBatch option" where
  "batch_of s = map_of (pendingBatches s)"

definition pending_requests :: "('f, 'e, 'v) RequestQueue \<Rightarrow> string \<Rightarrow> 'f QueuedRequest list" where
  "pending_requests s k = (case batch_of s k of None \<Rightarrow> [] | Some b \<Rightarrow> requests b)"

lemma processQueue_views [simp]:
  "entered (processQueue s) = entered s" "in_hand (processQueue s) = in_hand s"
  "pendingBatches (processQueue s) = pendingBatches s" "promises (processQueue s) = promises s"
  "clock (processQueue s) = clock s"
  by (simp_all add: processQueue_def entered_def[of "s\<lparr>processing := True\<rparr>"]
      in_hand_def[of "s\<lparr>processing := True\<rparr>"] entered_def[of s] in_hand_def[of s]
      drain_entered[of "s\<lparr>processing := True\<rparr>"] drain_in_hand[of "s\<lparr>processing := True\<rparr>"])

lemma processBatch_views:
  "batch_of s k = Some b \<Longrightarrow> entered (processBatch k s) = entered s @ requests b"
  "batch_of s k = Some b \<Longrightarrow> in_hand (processBatch k s) = in_hand s @ requests b"
  "batch_of s k = Some b \<Longrightarrow> batch_of (processBatch k s) = (batch_of s)(k := None)"
  "batch_of s k = None \<Longrightarrow> processBatch k s = s"
  "promises (processBatch k s) = promises s"
  "clock (processBatch k s) = clock s"
  by (auto simp: processBatch_def batch_of_def Let_def delete_conv' entered_def[of "_\<lparr>queue := _, pendingBatches := _\<rparr>"]
      in_hand_def[of "_\<lparr>queue := _, pendingBatches := _\<rparr>"] entered_def[of s] in_hand_def[of s]
      split: option.splits)


lemma entered_upd [simp]:
  "entered (s\<lparr>pendingBatches := pb\<rparr>) = entered s"
  "entered (s\<lparr>promises := ps\<rparr>) = entered s"
  "entered (s\<lparr>processing := b\<rparr>) = entered s"
  "entered (s\<lparr>loopAt := l\<rparr>) = entered s"
  "entered (s\<lparr>clock := c\<rparr>) = entered s"
  "entered (s\<lparr>currentConcurrent := n\<rparr>) = entered s"
  "entered (s\<lparr>running := rs\<rparr>) = entered s"
  "entered (s\<lparr>queue := q\<rparr>) = dispatched s @ q"
  by (simp_all add: entered_def)

lemma in_hand_upd [simp]:
  "in_hand (s\<lparr>pendingBatches := pb\<rparr>) = in_hand s"
  "in_hand (s\<lparr>promises := ps\<rparr>) = in_hand s"
  "in_hand (s\<lparr>processing := b\<rparr>) = in_hand s"
  "in_hand (s\<lparr>loopAt := l\<rparr>) = in_hand s"
  "in_hand (s\<lparr>clock := c\<rparr>) = in_hand s"
  "in_hand (s\<lparr>currentConcurrent := n\<rparr>) = in_hand s"
  "in_hand (s\<lparr>dispatched := d\<rparr>) = in_hand s"
  "in_hand (s\<lparr>queue := q\<rparr>) = running s @ q"
  "in_hand (s\<lparr>running := rs\<rparr>) = rs @ queue s"
  by (simp_all add: in_hand_def)

lemma batch_of_upd [simp]:
  "batch_of (s\<lparr>queue := q\<rparr>) = batch_of s"
  "batch_of (s\<lparr>promises := ps\<rparr>) = batch_of s"
  "batch_of (s\<lparr>processing := b\<rparr>) = batch_of s"
  "batch_of (s\<lparr>loopAt := l\<rparr>) = batch_of s"
  "batch_of (s\<lparr>clock := c\<rparr>) = batch_of s"
  "batch_of (s\<lparr>currentConcurrent := n\<rparr>) = batch_of s"
  "batch_of (s\<lparr>running := rs\<rparr>) = batch_of s"
  "batch_of (s\<lparr>dispatched := d\<rparr>) = batch_of s"
  "batch_of (s\<lparr>pendingBatches := pb\<rparr>) = map_of pb"
  by (simp_all add: batch_of_def)

lemma batch_of_processQueue [simp]: "batch_of (processQueue s) = batch_of s"
  by (simp add: batch_of_def)

lemma batch_of_drain [simp]: "batch_of (drain s) = batch_of s"
  by (simp add: batch_of_def)

text \<open>
  \<^verbatim>\<open>addToBatch\<close>: the batch is the one found under the key, or a new one, with the
  unit appended. At MAX_BATCH_SIZE it goes to the main queue whole and the key is
  free again; below, it stays pending with a timer due BATCH_DELAY_MS from now.
\<close>

lemma addToBatch_full:
  assumes "MAX_BATCH_SIZE \<le> Suc (length (pending_requests s k))"
  shows "entered (addToBatch k r s) = entered s @ pending_requests s k @ [r]"
    and "in_hand (addToBatch k r s) = in_hand s @ pending_requests s k @ [r]"
    and "batch_of (addToBatch k r s) = (batch_of s)(k := None)"
    and "promises (addToBatch k r s) = promises s"
    and "clock (addToBatch k r s) = clock s"
proof -
  let ?b = "case batch_of s k of None \<Rightarrow> \<lparr>requests = [], timeoutId = None\<rparr> | Some b \<Rightarrow> b"
  let ?b1 = "?b\<lparr>requests := requests ?b @ [r]\<rparr>"
  let ?s1 = "s\<lparr>pendingBatches := AList.update k ?b1 (pendingBatches s)\<rparr>"
  have req: "requests ?b = pending_requests s k"
    by (simp add: pending_requests_def split: option.splits)
  have a: "addToBatch k r s = processBatch k ?s1"
    using assms by (simp add: addToBatch_def Let_def batch_of_def req[unfolded batch_of_def])
  have b: "batch_of ?s1 k = Some ?b1"
    by (simp add: update_conv')
  show "entered (addToBatch k r s) = entered s @ pending_requests s k @ [r]"
    unfolding a processBatch_views(1)[OF b] by (simp add: req)
  show "in_hand (addToBatch k r s) = in_hand s @ pending_requests s k @ [r]"
    unfolding a processBatch_views(2)[OF b] by (simp add: req)
  show "batch_of (addToBatch k r s) = (batch_of s)(k := None)"
    unfolding a processBatch_views(3)[OF b] by (simp add: update_conv' batch_of_def)
  show "promises (addToBatch k r s) = promises s"
    unfolding a processBatch_views(5) by simp
  show "clock (addToBatch k r s) = clock s"
    unfolding a processBatch_views(6) by simp
qed

lemma addToBatch_pending:
  assumes "Suc (length (pending_requests s k)) < MAX_BATCH_SIZE"
  shows "addToBatch k r s
    = s\<lparr>pendingBatches := AList.update k
           \<lparr>requests = pending_requests s k @ [r], timeoutId = Some (clock s + BATCH_DELAY_MS)\<rparr>
           (pendingBatches s)\<rparr>"
proof -
  let ?b = "case batch_of s k of None \<Rightarrow> \<lparr>requests = [], timeoutId = None\<rparr> | Some b \<Rightarrow> b"
  have req: "requests ?b = pending_requests s k"
    by (simp add: pending_requests_def split: option.splits)
  have ext: "b\<lparr>requests := x, timeoutId := y\<rparr> = \<lparr>requests = x, timeoutId = y\<rparr>"
    for b :: "'a RequestBatch" and x y
    by (cases b) simp
  show ?thesis
    using assms by (simp add: addToBatch_def Let_def batch_of_def req[unfolded batch_of_def] ext)
qed

lemma addToBatch_cases:
  obtains (full) "MAX_BATCH_SIZE \<le> Suc (length (pending_requests s k))"
  | (pending) "Suc (length (pending_requests s k)) < MAX_BATCH_SIZE"
  by linarith

lemma resume_views [simp]:
  "entered (resume s) = entered s" "in_hand (resume s) = in_hand s"
  "pendingBatches (resume s) = pendingBatches s" "promises (resume s) = promises s"
  "clock (resume s) = clock s"
proof -
  have d: "entered (dispatch s) = entered s" "in_hand (dispatch s) = in_hand s"
    "pendingBatches (dispatch s) = pendingBatches s" "promises (dispatch s) = promises s"
    "clock (dispatch s) = clock s"
    by (auto simp: dispatch_def entered_def in_hand_def split: list.splits)
  show "entered (resume s) = entered s" "in_hand (resume s) = in_hand s"
    "pendingBatches (resume s) = pendingBatches s" "promises (resume s) = promises s"
    "clock (resume s) = clock s"
    by (auto simp: resume_def d split: loop_at.splits)
qed

subsection \<open>Every unit is bound to a promise of its own, still pending\<close>

text \<open>
  All the units the queue holds: in flight, waiting, and in pending batches. \<open>good\<close>
  says that no two of them share a promise and that each one's promise exists and is
  pending.
\<close>

definition batch_units :: "(string \<times> 'f RequestBatch) list \<Rightarrow> 'f QueuedRequest list" where
  "batch_units pb = concat (map (\<lambda>(k, b). requests b) pb)"

definition all_units :: "('f, 'e, 'v) RequestQueue \<Rightarrow> 'f QueuedRequest list" where
  "all_units s = in_hand s @ batch_units (pendingBatches s)"

definition good :: "('e, 'v) promise_state list \<Rightarrow> 'f QueuedRequest list \<Rightarrow> bool" where
  "good ps xs \<longleftrightarrow> distinct (map promise xs)
      \<and> (\<forall>r\<in>set xs. promise r < length ps \<and> ps ! promise r = Pending)"

lemma distinct_mset_sub:
  assumes "mset ys \<subseteq># mset xs" and "distinct xs"
  shows "distinct ys"
proof -
  have "count (mset ys) a = (if a \<in> set ys then 1 else 0)" for a
  proof -
    have "count (mset ys) a \<le> count (mset xs) a" using assms(1) by (rule mset_subset_eq_count)
    moreover have "count (mset xs) a \<le> 1" using assms(2) by (simp add: distinct_count_atmost_1)
    ultimately have "count (mset ys) a \<le> 1" by simp
    then show ?thesis
    proof (cases "a \<in> set ys")
      case True
      then have "count (mset ys) a \<noteq> 0" by (simp add: count_eq_zero_iff)
      with \<open>count (mset ys) a \<le> 1\<close> have "count (mset ys) a = 1" by linarith
      with True show ?thesis by (simp only: if_True)
    next
      case False
      then show ?thesis by (simp add: count_eq_zero_iff)
    qed
  qed
  then show ?thesis by (simp add: distinct_count_atmost_1)
qed

lemma good_sub:
  assumes "good ps xs" and "mset ys \<subseteq># mset xs"
  shows "good ps ys"
proof -
  have "mset (map promise ys) \<subseteq># mset (map promise xs)"
    using assms(2) by (simp add: image_mset_subseteq_mono)
  moreover have "distinct (map promise xs)" using assms(1) by (simp add: good_def)
  ultimately have "distinct (map promise ys)" by (rule distinct_mset_sub)
  moreover have "set ys \<subseteq> set xs" using set_mset_mono[OF assms(2)] by simp
  ultimately show ?thesis using assms(1) by (auto simp: good_def)
qed

lemma good_new:
  assumes "good ps xs"
  shows "good (ps @ [Pending]) (\<lparr>fn = f, promise = length ps, timestamp = t\<rparr> # xs)"
  using assms by (auto simp: good_def nth_append)

lemma good_settle:
  assumes "good ps xs" and "r \<in> set xs"
  shows "good (settle (promise r) x ps) (remove1 r xs)"
proof -
  have d: "distinct (map promise xs)" using assms(1) by (simp add: good_def)
  then have dx: "distinct xs" and inj: "inj_on promise (set xs)" by (simp_all add: distinct_map)
  have "good ps (remove1 r xs)" using assms(1) by (rule good_sub) simp
  then have g: "distinct (map promise (remove1 r xs))"
    "\<forall>r'\<in>set (remove1 r xs). promise r' < length ps \<and> ps ! promise r' = Pending"
    by (simp_all add: good_def)
  have other: "promise r' \<noteq> promise r" if "r' \<in> set (remove1 r xs)" for r'
  proof -
    from that dx have "r' \<in> set xs" "r' \<noteq> r" by auto
    with inj assms(2) show ?thesis by (auto simp: inj_on_def)
  qed
  have "promise r' < length (settle (promise r) x ps) \<and> settle (promise r) x ps ! promise r' = Pending"
    if "r' \<in> set (remove1 r xs)" for r'
    using g(2) other[OF that] that by (simp add: settle_def)
  with g(1) show ?thesis
    by (simp add: good_def)
qed

lemma batch_units_Cons: "batch_units ((k, b) # al) = requests b @ batch_units al"
  by (simp add: batch_units_def)

lemma batch_units_Nil: "batch_units [] = []"
  by (simp add: batch_units_def)

lemma batch_units_update:
  "mset (batch_units (AList.update k
      \<lparr>requests = (case map_of al k of None \<Rightarrow> [] | Some b \<Rightarrow> requests b) @ [r], timeoutId = t\<rparr> al))
   = mset (batch_units al) + {#r#}"
  by (induction al) (auto simp: batch_units_Cons batch_units_Nil)

lemma batch_units_delete_le:
  "mset (batch_units (AList.delete k al)) \<subseteq># mset (batch_units al)"
proof (induction al)
  case Nil
  then show ?case by simp
next
  case (Cons a al)
  obtain k' b' where a: "a = (k', b')" by (cases a)
  from Cons show ?case
    by (auto simp: a batch_units_Cons subseteq_mset_def intro: trans_le_add2)
qed

lemma batch_units_delete:
  "map_of al k = Some b \<Longrightarrow>
   mset (requests b) + mset (batch_units (AList.delete k al)) \<subseteq># mset (batch_units al)"
proof (induction al)
  case Nil
  then show ?case by simp
next
  case (Cons a al)
  obtain k' b' where a: "a = (k', b')" by (cases a)
  show ?case
  proof (cases "k' = k")
    case True
    with Cons.prems batch_units_delete_le[of k al] show ?thesis
      by (auto simp: a batch_units_Cons subseteq_mset_def)
  next
    case False
    with Cons show ?thesis
      by (auto simp: a batch_units_Cons subseteq_mset_def add.assoc add.left_commute)
  qed
qed

text \<open>The unit \<^verbatim>\<open>queueRequest\<close> builds for an action.\<close>

definition new_request :: "'f \<Rightarrow> ('f, 'e, 'v) RequestQueue \<Rightarrow> 'f QueuedRequest" where
  "new_request f s = \<lparr>fn = f, promise = length (promises s), timestamp = clock s\<rparr>"

lemma all_units_upd [simp]:
  "all_units (s\<lparr>promises := ps\<rparr>) = all_units s"
  "all_units (s\<lparr>processing := b\<rparr>) = all_units s"
  "all_units (s\<lparr>loopAt := l\<rparr>) = all_units s"
  "all_units (s\<lparr>clock := c\<rparr>) = all_units s"
  "all_units (s\<lparr>currentConcurrent := n\<rparr>) = all_units s"
  "all_units (s\<lparr>dispatched := d\<rparr>) = all_units s"
  by (simp_all add: all_units_def)

lemma all_units_processQueue [simp]: "all_units (processQueue s) = all_units s"
  by (simp add: all_units_def)

lemma all_units_resume [simp]: "all_units (resume s) = all_units s"
  by (simp add: all_units_def)

lemma pendingBatches_processBatch:
  "pendingBatches (processBatch k s)
     = (case batch_of s k of None \<Rightarrow> pendingBatches s | Some b \<Rightarrow> AList.delete k (pendingBatches s))"
  by (simp add: processBatch_def batch_of_def Let_def split: option.splits)

lemma all_units_processBatch: "mset (all_units (processBatch k s)) \<subseteq># mset (all_units s)"
proof (cases "batch_of s k")
  case None
  then show ?thesis by (simp add: processBatch_views(4))
next
  case (Some b)
  then have m: "map_of (pendingBatches s) k = Some b" by (simp add: batch_of_def)
  show ?thesis
    using batch_units_delete[OF m]
    by (simp add: all_units_def processBatch_views(2)[OF Some] pendingBatches_processBatch Some
        subseteq_mset_def add.assoc)
qed

lemma all_units_addToBatch:
  "mset (all_units (addToBatch k r s)) \<subseteq># mset (r # all_units s)"
proof (cases rule: addToBatch_cases[where s=s and k=k])
  case full
  let ?b = "case batch_of s k of None \<Rightarrow> \<lparr>requests = [], timeoutId = None\<rparr> | Some b \<Rightarrow> b"
  let ?b1 = "?b\<lparr>requests := requests ?b @ [r]\<rparr>"
  let ?s1 = "s\<lparr>pendingBatches := AList.update k ?b1 (pendingBatches s)\<rparr>"
  have req: "requests ?b = pending_requests s k"
    by (simp add: pending_requests_def split: option.splits)
  have a: "addToBatch k r s = processBatch k ?s1"
    using full by (simp add: addToBatch_def Let_def batch_of_def req[unfolded batch_of_def])
  have b: "batch_of ?s1 k = Some ?b1" by (simp add: update_conv')
  have pb: "pendingBatches (addToBatch k r s) = AList.delete k (pendingBatches s)"
    unfolding a pendingBatches_processBatch b by (simp add: delete_update_same)
  have "mset (pending_requests s k) + mset (batch_units (AList.delete k (pendingBatches s)))
          \<subseteq># mset (batch_units (pendingBatches s))"
  proof (cases "batch_of s k")
    case None
    then show ?thesis using batch_units_delete_le[of k "pendingBatches s"]
      by (simp add: pending_requests_def)
  next
    case (Some b0)
    then show ?thesis using batch_units_delete[of "pendingBatches s" k b0]
      by (simp add: pending_requests_def batch_of_def)
  qed
  then show ?thesis
    by (simp add: all_units_def addToBatch_full(2)[OF full] pb subseteq_mset_def add.assoc)
next
  case pending
  have "pending_requests s k = (case map_of (pendingBatches s) k of None \<Rightarrow> [] | Some b \<Rightarrow> requests b)"
    by (simp add: pending_requests_def batch_of_def)
  then show ?thesis
    using batch_units_update[of k "pendingBatches s" r "Some (clock s + BATCH_DELAY_MS)"]
    by (simp add: addToBatch_pending[OF pending] all_units_def)
qed

lemma promises_addToBatch [simp]: "promises (addToBatch k r s) = promises s"
  by (cases rule: addToBatch_cases[where s=s and k=k])
     (simp_all add: addToBatch_full(4) addToBatch_pending)

lemma queueRequest_units:
  "promises (snd (queueRequest f options s)) = promises s @ [Pending]"
  "mset (all_units (snd (queueRequest f options s))) \<subseteq># mset (new_request f s # all_units s)"
proof -
  show "promises (snd (queueRequest f options s)) = promises s @ [Pending]"
    by (simp add: queueRequest_def Let_def split: option.splits)
  show "mset (all_units (snd (queueRequest f options s))) \<subseteq># mset (new_request f s # all_units s)"
  proof (cases "batch_key_of options")
    case None
    then show ?thesis
      by (simp add: queueRequest_def Let_def new_request_def all_units_def in_hand_def[of s])
  next
    case (Some k)
    then show ?thesis
      using all_units_addToBatch[of k "new_request f s" "s\<lparr>promises := promises s @ [Pending]\<rparr>"]
      by (simp add: queueRequest_def Let_def new_request_def)
  qed
qed

lemma step_Settles_found:
  assumes "filter (\<lambda>r. promise r = p) (running s) = r # others"
  shows "r \<in> set (running s)" and "promise r = p"
    and "step (Settles p result) s = executeRequest_settled r result s"
proof -
  have "r \<in> set (filter (\<lambda>r. promise r = p) (running s))" by (simp add: assms)
  then show "r \<in> set (running s)" and "promise r = p" by simp_all
  show "step (Settles p result) s = executeRequest_settled r result s" by (simp add: assms)
qed

lemma step_Settles_none:
  "filter (\<lambda>r. promise r = p) (running s) = [] \<Longrightarrow> step (Settles p result) s = s"
  by simp

text \<open>How the unit's promise settles for a result of the action.\<close>

definition outcome_state :: "'e + 'v \<Rightarrow> ('e, 'v) promise_state" where
  "outcome_state result = (case result of Inr v \<Rightarrow> Resolved v | Inl error \<Rightarrow> Rejected error)"

lemma executeRequest_settled_eq:
  "executeRequest_settled r result s
     = s\<lparr>promises := settle (promise r) (outcome_state result) (promises s),
         currentConcurrent := currentConcurrent s - 1,
         running := remove1 r (running s)\<rparr>"
  by (cases result) (simp_all add: executeRequest_settled_def outcome_state_def)

lemma all_units_settled:
  "r \<in> set (running s) \<Longrightarrow>
   all_units (executeRequest_settled r result s) = remove1 r (all_units s)"
  by (simp add: executeRequest_settled_eq all_units_def in_hand_def remove1_append)

lemma step_good:
  assumes "good (promises s) (all_units s)"
  shows "good (promises (step e s)) (all_units (step e s))"
proof (cases e)
  case (QueueRequest f options)
  have "good (promises s @ [Pending]) (new_request f s # all_units s)"
    unfolding new_request_def using assms by (rule good_new)
  then show ?thesis
    using queueRequest_units[of f options s] QueueRequest by (auto intro: good_sub)
next
  case (BatchTimer k)
  have "good (promises s) (all_units (processBatch k s))"
    using assms all_units_processBatch by (rule good_sub)
  then show ?thesis using assms BatchTimer
    by (auto simp: processBatch_views(5) split: option.splits)
next
  case LoopTimer
  then show ?thesis using assms by simp
next
  case (Settles p result)
  show ?thesis
  proof (cases "filter (\<lambda>r. promise r = p) (running s)")
    case Nil
    then show ?thesis using assms Settles by simp
  next
    case (Cons r others)
    note f = step_Settles_found[OF Cons]
    have "r \<in> set (all_units s)" using f(1) by (simp add: all_units_def in_hand_def)
    from good_settle[OF assms this, of "outcome_state result"]
    show ?thesis
      unfolding Settles f(3) all_units_settled[OF f(1)]
      by (simp add: executeRequest_settled_eq)
  qed
next
  case (Tick d)
  then show ?thesis using assms by (simp add: all_units_def in_hand_def)
next
  case Clear
  have "mset (all_units (clear s)) \<subseteq># mset (all_units s)"
    by (simp add: clear_def all_units_def in_hand_def batch_units_Nil)
  with assms have "good (promises s) (all_units (clear s))" by (rule good_sub)
  then show ?thesis using Clear by (simp add: clear_def)
qed

lemma run_good: "good (promises (run evs)) (all_units (run evs))"
proof (induction evs rule: rev_induct)
  case Nil
  show ?case by (simp add: run_Nil new_queue_def good_def all_units_def in_hand_def batch_units_Nil)
next
  case (snoc e evs)
  then show ?case by (simp add: run_snoc step_good)
qed

text \<open>A unit in flight is the only one bound to its promise, and that promise is pending.\<close>

lemma in_flight_unique:
  assumes "r \<in> set (running (run evs))"
  shows "promise r < length (promises (run evs))"
    and "promises (run evs) ! promise r = Pending"
    and "step (Settles (promise r) result) (run evs) = executeRequest_settled r result (run evs)"
proof -
  let ?s = "run evs"
  have g: "good (promises ?s) (all_units ?s)" by (rule run_good)
  have mem: "r \<in> set (all_units ?s)" using assms by (simp add: all_units_def in_hand_def)
  with g show "promise r < length (promises ?s)" and "promises ?s ! promise r = Pending"
    by (simp_all add: good_def)
  have "r \<in> set (filter (\<lambda>r'. promise r' = promise r) (running ?s))" using assms by simp
  then obtain r0 others where c: "filter (\<lambda>r'. promise r' = promise r) (running ?s) = r0 # others"
    by (cases "filter (\<lambda>r'. promise r' = promise r) (running ?s)") auto
  note f = step_Settles_found[OF c]
  have "r0 \<in> set (all_units ?s)" using f(1) by (simp add: all_units_def in_hand_def)
  moreover have "inj_on promise (set (all_units ?s))" using g by (simp add: good_def distinct_map)
  ultimately have "r0 = r" using mem f(2) by (auto simp: inj_on_def)
  with f(3) show "step (Settles (promise r) result) ?s = executeRequest_settled r result ?s"
    by simp
qed

subsection \<open>The queue does not read what promises hold\<close>

lemma dispatch_promises_upd:
  "dispatch (s\<lparr>promises := ps\<rparr>) = (dispatch s)\<lparr>promises := ps\<rparr>"
  by (simp add: dispatch_def split: list.splits)

lemma drain_promises_upd: "drain (s\<lparr>promises := ps\<rparr>) = (drain s)\<lparr>promises := ps\<rparr>"
proof (induction s rule: drain.induct)
  case (1 s)
  show ?case
  proof (cases rule: drain_cases[where s=s])
    case stop
    then show ?thesis by (simp add: drain_stop)
  next
    case outer
    then show ?thesis by (simp add: drain_outer)
  next
    case inner
    then show ?thesis by (simp add: drain_inner)
  next
    case dispatch
    then have "drain (s\<lparr>promises := ps\<rparr>) = drain (dispatch (s\<lparr>promises := ps\<rparr>))"
      by (simp add: drain_dispatch)
    also have "\<dots> = (drain (dispatch s))\<lparr>promises := ps\<rparr>"
      using "1.IH" dispatch by (simp add: dispatch_promises_upd)
    finally show ?thesis using dispatch by (simp add: drain_dispatch)
  qed
qed

lemma promises_upd_first:
  "s\<lparr>promises := ps, processing := b\<rparr> = s\<lparr>processing := b, promises := ps\<rparr>"
  "s\<lparr>promises := ps, queue := q\<rparr> = s\<lparr>queue := q, promises := ps\<rparr>"
  "s\<lparr>promises := ps, pendingBatches := pb\<rparr> = s\<lparr>pendingBatches := pb, promises := ps\<rparr>"
  "s\<lparr>promises := ps, queue := q, pendingBatches := pb\<rparr>
     = s\<lparr>queue := q, pendingBatches := pb, promises := ps\<rparr>"
  by simp_all

lemma processQueue_promises_upd:
  "processQueue (s\<lparr>promises := ps\<rparr>) = (processQueue s)\<lparr>promises := ps\<rparr>"
  by (simp add: processQueue_def promises_upd_first drain_promises_upd)

lemma processBatch_promises_upd:
  "processBatch k (s\<lparr>promises := ps\<rparr>) = (processBatch k s)\<lparr>promises := ps\<rparr>"
  by (simp add: processBatch_def Let_def promises_upd_first processQueue_promises_upd
      split: option.splits)

lemma addToBatch_promises_upd:
  "addToBatch k r (s\<lparr>promises := ps\<rparr>) = (addToBatch k r s)\<lparr>promises := ps\<rparr>"
  by (simp add: addToBatch_def Let_def promises_upd_first processBatch_promises_upd)

lemma resume_promises_upd: "resume (s\<lparr>promises := ps\<rparr>) = (resume s)\<lparr>promises := ps\<rparr>"
  by (simp add: resume_def dispatch_promises_upd drain_promises_upd split: loop_at.splits)

lemma queueRequest_promises_upd:
  assumes "length ps = length (promises s)"
  shows "snd (queueRequest f options (s\<lparr>promises := ps\<rparr>))
           = (snd (queueRequest f options s))\<lparr>promises := ps @ [Pending]\<rparr>"
  using assms
  by (simp add: queueRequest_def Let_def promises_upd_first addToBatch_promises_upd
      processQueue_promises_upd split: option.splits)

text \<open>What a turn does to the table of promises.\<close>

fun promises_after ::
  "('f, 'e, 'v) event \<Rightarrow> ('f, 'e, 'v) RequestQueue \<Rightarrow> ('e, 'v) promise_state list
     \<Rightarrow> ('e, 'v) promise_state list" where
  "promises_after (QueueRequest f options) s ps = ps @ [Pending]"
| "promises_after (Settles p result) s ps =
     (if filter (\<lambda>r. promise r = p) (running s) = [] then ps
      else settle p (outcome_state result) ps)"
| "promises_after e s ps = ps"

lemma step_promises_upd:
  assumes "length ps = length (promises s)"
  shows "step e (s\<lparr>promises := ps\<rparr>) = (step e s)\<lparr>promises := promises_after e s ps\<rparr>"
proof (cases e)
  case (QueueRequest f options)
  then show ?thesis using assms by (simp add: queueRequest_promises_upd)
next
  case (BatchTimer k)
  then show ?thesis by (simp add: processBatch_promises_upd split: option.splits)
next
  case LoopTimer
  then show ?thesis by (simp add: resume_promises_upd)
next
  case (Settles p result)
  show ?thesis
  proof (cases "filter (\<lambda>r. promise r = p) (running s)")
    case Nil
    then show ?thesis using Settles by simp
  next
    case (Cons r others)
    note f = step_Settles_found[OF Cons]
    show ?thesis using Settles Cons f(2)
      by (simp add: executeRequest_settled_eq)
  qed
next
  case (Tick d)
  then show ?thesis by simp
next
  case Clear
  then show ?thesis by (simp add: clear_def)
qed

lemma step_promises: "promises (step e s) = promises_after e s (promises s)"
proof -
  have "step e s = step e (s\<lparr>promises := promises s\<rparr>)" by simp
  also have "\<dots> = (step e s)\<lparr>promises := promises_after e s (promises s)\<rparr>"
    by (rule step_promises_upd) simp
  finally have "promises (step e s) = promises ((step e s)\<lparr>promises := promises_after e s (promises s)\<rparr>)"
    by simp
  then show ?thesis by simp
qed

subsection \<open>Two runs that differ in how one action settled\<close>

text \<open>
  \<open>only_differ p a b s t\<close>: the states are the same but for promise \<open>p\<close>, settled as
  \<open>a\<close> in \<open>s\<close> and as \<open>b\<close> in \<open>t\<close>.
\<close>

definition only_differ ::
  "nat \<Rightarrow> ('e, 'v) promise_state \<Rightarrow> ('e, 'v) promise_state
     \<Rightarrow> ('f, 'e, 'v) RequestQueue \<Rightarrow> ('f, 'e, 'v) RequestQueue \<Rightarrow> bool" where
  "only_differ p a b s t \<longleftrightarrow>
     s = t\<lparr>promises := (promises t)[p := a]\<rparr> \<and> p < length (promises t) \<and> promises t ! p = b
   \<and> a \<noteq> Pending \<and> b \<noteq> Pending"

lemma promises_after_differ:
  assumes "p < length ps" and "ps ! p = b" and "a \<noteq> Pending" and "b \<noteq> Pending"
  shows "promises_after e t (ps[p := a]) = (promises_after e t ps)[p := a]"
    and "p < length (promises_after e t ps)"
    and "promises_after e t ps ! p = b"
proof -
  have s: "settle q x (ps[p := a]) = (settle q x ps)[p := a]" for q x
  proof (cases "q = p")
    case True
    then show ?thesis using assms by (simp add: settle_def)
  next
    case False
    then show ?thesis using assms by (auto simp: settle_def list_update_swap)
  qed
  have n: "settle q x ps ! p = b" for q x
    using assms by (auto simp: settle_def nth_list_update)
  have l: "length (settle q x ps) = length ps" for q x
    by (simp add: settle_def)
  show "promises_after e t (ps[p := a]) = (promises_after e t ps)[p := a]"
    using assms by (cases e) (simp_all add: s list_update_append1)
  show "p < length (promises_after e t ps)"
    using assms by (cases e) (simp_all add: l)
  show "promises_after e t ps ! p = b"
    using assms by (cases e) (simp_all add: n nth_append)
qed

lemma only_differ_step:
  assumes "only_differ p a b s t"
  shows "only_differ p a b (step e s) (step e t)"
proof -
  from assms have s: "s = t\<lparr>promises := (promises t)[p := a]\<rparr>" and p: "p < length (promises t)"
    and b: "promises t ! p = b" and ne: "a \<noteq> Pending" "b \<noteq> Pending"
    by (simp_all add: only_differ_def)
  have "step e s = (step e t)\<lparr>promises := promises_after e t ((promises t)[p := a])\<rparr>"
    unfolding s by (rule step_promises_upd) simp
  also have "promises_after e t ((promises t)[p := a]) = (promises (step e t))[p := a]"
    using promises_after_differ(1)[OF p b ne] by (simp add: step_promises)
  finally have "step e s = (step e t)\<lparr>promises := (promises (step e t))[p := a]\<rparr>" .
  then show ?thesis
    using promises_after_differ(2,3)[OF p b ne, of e t] ne
    by (simp add: only_differ_def step_promises)
qed

lemma only_differ_fold:
  "only_differ p a b s t \<Longrightarrow> only_differ p a b (fold step evs s) (fold step evs t)"
  by (induction evs arbitrary: s t) (simp_all add: only_differ_step)

subsection \<open>Where a settled promise got its value\<close>

lemma settled_by_own_action:
  assumes "h < length (promises (run evs))" and "promises (run evs) ! h \<noteq> Pending"
  shows "\<exists>result. Settles h result \<in> set evs \<and> promises (run evs) ! h = outcome_state result"
  using assms
proof (induction evs rule: rev_induct)
  case Nil
  then show ?case by (simp add: run_Nil new_queue_def)
next
  case (snoc e evs)
  let ?ps = "promises (run evs)"
  have ps: "promises (run (evs @ [e])) = promises_after e (run evs) ?ps"
    by (simp add: run_snoc step_promises)
  show ?case
  proof (cases "h < length ?ps \<and> ?ps ! h \<noteq> Pending")
    case True
    with snoc.IH obtain result where r: "Settles h result \<in> set evs" "?ps ! h = outcome_state result"
      by blast
    have "promises_after e (run evs) ?ps ! h = ?ps ! h"
      using True by (cases e) (auto simp: nth_append settle_def nth_list_update)
    then have "promises (run (evs @ [e])) ! h = outcome_state result"
      using r(2) by (simp only: ps)
    moreover have "Settles h result \<in> set (evs @ [e])" using r(1) by simp
    ultimately show ?thesis by blast
  next
    case False
    from snoc.prems have h: "h < length (promises_after e (run evs) ?ps)"
      "promises_after e (run evs) ?ps ! h \<noteq> Pending"
      by (simp_all add: ps)
    show ?thesis
    proof (cases e)
      case (Settles p result)
      have l: "length (settle p x ?ps) = length ?ps" for x by (simp add: settle_def)
      from h False have ph: "p = h \<and> promises_after e (run evs) ?ps ! h = outcome_state result"
        unfolding Settles by (auto simp: settle_def l nth_list_update split: if_splits)
      then have "Settles h result \<in> set (evs @ [e])" using Settles by simp
      moreover have "promises (run (evs @ [e])) ! h = outcome_state result"
        using ph by (simp only: ps)
      ultimately show ?thesis by blast
    next
      case (QueueRequest f options)
      with False h show ?thesis by (auto simp: nth_append split: if_splits)
    next
      case (BatchTimer k)
      with False h show ?thesis by simp
    next
      case LoopTimer
      with False h show ?thesis by simp
    next
      case (Tick d)
      with False h show ?thesis by simp
    next
      case Clear
      with False h show ?thesis by simp
    qed
  qed
qed

subsection \<open>The loop is awake whenever there is work\<close>

definition ctl_inv :: "('f, 'e, 'v) RequestQueue \<Rightarrow> bool" where
  "ctl_inv s \<longleftrightarrow>
     currentConcurrent s = int (length (running s))
   \<and> (processing s \<longleftrightarrow> loopAt s \<noteq> NotRunning)
   \<and> (\<not> processing s \<longrightarrow> queue s = [] \<and> running s = [])"

lemma drain_ctl:
  assumes "currentConcurrent s = int (length (running s))" and "processing s"
  shows "ctl_inv (drain s)"
proof -
  have c: "currentConcurrent (drain s) = int (length (running (drain s)))"
    using drain_slack[of s] assms(1) by linarith
  from drain_rest[OF assms(2)] c show ?thesis by (auto simp: ctl_inv_def)
qed

lemma processQueue_ctl:
  assumes "currentConcurrent s = int (length (running s))"
    and "processing s \<longleftrightarrow> loopAt s \<noteq> NotRunning"
    and "processing s \<or> running s = []"
  shows "ctl_inv (processQueue s)"
proof (cases "processing s")
  case True
  with assms show ?thesis by (simp add: processQueue_def ctl_inv_def)
next
  case False
  have "ctl_inv (drain (s\<lparr>processing := True\<rparr>))"
    by (rule drain_ctl) (simp_all add: assms(1))
  with False show ?thesis by (simp add: processQueue_def)
qed

lemma processQueue_ctl_id: "ctl_inv s \<Longrightarrow> ctl_inv (processQueue s)"
  by (rule processQueue_ctl) (auto simp: ctl_inv_def)

lemma processBatch_ctl: "ctl_inv s \<Longrightarrow> ctl_inv (processBatch k s)"
proof (cases "map_of (pendingBatches s) k")
  case None
  then show "ctl_inv s \<Longrightarrow> ?thesis" by (simp add: processBatch_def)
next
  case (Some b)
  assume inv: "ctl_inv s"
  let ?s1 = "s\<lparr>queue := queue s @ requests b, pendingBatches := AList.delete k (pendingBatches s)\<rparr>"
  have "ctl_inv (processQueue ?s1)"
    by (rule processQueue_ctl) (use inv in \<open>auto simp: ctl_inv_def\<close>)
  moreover have "processing ?s1 \<Longrightarrow> processQueue ?s1 = ?s1" by (simp add: processQueue_def)
  ultimately show ?thesis using Some
    by (auto simp: processBatch_def Let_def)
qed

lemma addToBatch_ctl: "ctl_inv s \<Longrightarrow> ctl_inv (addToBatch k r s)"
proof -
  assume inv: "ctl_inv s"
  have "ctl_inv (s\<lparr>pendingBatches := pb\<rparr>)" for pb using inv by (simp add: ctl_inv_def)
  then show ?thesis by (simp add: addToBatch_def Let_def processBatch_ctl)
qed

lemma queueRequest_ctl: "ctl_inv s \<Longrightarrow> ctl_inv (snd (queueRequest f options s))"
proof -
  assume inv: "ctl_inv s"
  let ?r = "\<lparr>fn = f, promise = length (promises s), timestamp = clock s\<rparr>"
  let ?s0 = "s\<lparr>promises := promises s @ [Pending]\<rparr>"
  have inv0: "ctl_inv ?s0" using inv by (simp add: ctl_inv_def)
  have p: "(if \<not> processing t then processQueue t else t) = processQueue t" for t :: "('a, 'b, 'c) RequestQueue"
    by (simp add: processQueue_def)
  show ?thesis
  proof (cases "batch_key_of options")
    case None
    have "ctl_inv (processQueue (?s0\<lparr>queue := queue ?s0 @ [?r]\<rparr>))"
      by (rule processQueue_ctl) (use inv in \<open>auto simp: ctl_inv_def\<close>)
    with None show ?thesis by (simp add: queueRequest_def Let_def p)
  next
    case (Some k)
    have "ctl_inv (processQueue (addToBatch k ?r ?s0))"
      using inv0 by (intro processQueue_ctl_id addToBatch_ctl)
    with Some show ?thesis by (simp add: queueRequest_def Let_def p)
  qed
qed

lemma resume_ctl: "ctl_inv s \<Longrightarrow> ctl_inv (resume s)"
proof -
  assume inv: "ctl_inv s"
  then have c: "currentConcurrent s = int (length (running s))"
    and pr: "loopAt s \<noteq> NotRunning \<Longrightarrow> processing s"
    by (simp_all add: ctl_inv_def)
  have d: "ctl_inv (drain s)" if "loopAt s \<noteq> NotRunning"
    using c pr[OF that] by (rule drain_ctl)
  have dd: "ctl_inv (drain (dispatch s))" if "loopAt s \<noteq> NotRunning"
  proof (rule drain_ctl)
    show "currentConcurrent (dispatch s) = int (length (running (dispatch s)))"
      using c by (simp add: dispatch_def split: list.splits)
    show "processing (dispatch s)"
      using pr[OF that] by (simp add: dispatch_def split: list.splits)
  qed
  have u: "ctl_inv (s\<lparr>loopAt := l\<rparr>)" if "l \<noteq> NotRunning" "loopAt s \<noteq> NotRunning" for l
    using inv that by (simp add: ctl_inv_def)
  show ?thesis
  proof (cases "loopAt s")
    case NotRunning
    then show ?thesis using inv by (simp add: resume_def)
  next
    case (SleepInner due)
    then have ne: "loopAt s \<noteq> NotRunning" by simp
    show ?thesis
      using inv dd[OF ne] u[OF _ ne] by (simp add: resume_def SleepInner)
  next
    case (SleepOuter due)
    then have ne: "loopAt s \<noteq> NotRunning" by simp
    show ?thesis
      using inv d[OF ne] by (simp add: resume_def SleepOuter)
  qed
qed

lemma settled_ctl:
  assumes "ctl_inv s" and "r \<in> set (running s)"
  shows "ctl_inv (executeRequest_settled r result s)"
proof -
  have "0 < length (running s)" using assms(2) by (rule length_pos_if_in_set)
  moreover have "length (remove1 r (running s)) = length (running s) - 1"
    using assms(2) by (simp add: length_remove1)
  ultimately have l: "int (length (remove1 r (running s))) = int (length (running s)) - 1"
    by linarith
  have p: "processing s" using assms by (auto simp: ctl_inv_def)
  show ?thesis
    using assms(1) p unfolding ctl_inv_def executeRequest_settled_eq
    by (simp add: l)
qed

lemma step_ctl: "ctl_inv s \<Longrightarrow> ctl_inv (step e s)"
proof (cases e)
  case (QueueRequest f options)
  then show "ctl_inv s \<Longrightarrow> ?thesis" by (simp add: queueRequest_ctl)
next
  case (BatchTimer k)
  then show "ctl_inv s \<Longrightarrow> ?thesis" by (simp add: processBatch_ctl split: option.splits)
next
  case LoopTimer
  then show "ctl_inv s \<Longrightarrow> ?thesis" by (simp add: resume_ctl)
next
  case (Settles p result)
  assume inv: "ctl_inv s"
  show ?thesis
  proof (cases "filter (\<lambda>r. promise r = p) (running s)")
    case Nil
    then show ?thesis using inv Settles by simp
  next
    case (Cons r others)
    note f = step_Settles_found[OF Cons]
    show ?thesis unfolding Settles f(3) using inv f(1) by (rule settled_ctl)
  qed
next
  case (Tick d)
  then show "ctl_inv s \<Longrightarrow> ?thesis" by (simp add: ctl_inv_def)
next
  case Clear
  then show "ctl_inv s \<Longrightarrow> ?thesis" by (simp add: ctl_inv_def clear_def)
qed

lemma run_ctl: "ctl_inv (run evs)"
proof (induction evs rule: rev_induct)
  case Nil
  show ?case by (simp add: run_Nil new_queue_def ctl_inv_def)
next
  case (snoc e evs)
  then show ?case by (simp add: run_snoc step_ctl)
qed

subsection \<open>What enters the main queue\<close>

lemma requeue_guard:
  "(if \<not> processing t then processQueue t else t) = processQueue t"
  by (simp add: processQueue_def)

lemma queueRequest_unbatched:
  assumes "batch_key_of options = None"
  shows "entered (snd (queueRequest f options s)) = entered s @ [new_request f s]"
    and "pendingBatches (snd (queueRequest f options s)) = pendingBatches s"
  using assms
  by (simp_all add: queueRequest_def Let_def requeue_guard new_request_def entered_def[of s])

lemma queueRequest_batched_full:
  assumes "batch_key_of options = Some k"
    and "MAX_BATCH_SIZE \<le> Suc (length (pending_requests s k))"
  shows "entered (snd (queueRequest f options s))
           = entered s @ pending_requests s k @ [new_request f s]"
    and "batch_of (snd (queueRequest f options s)) k = None"
proof -
  let ?s0 = "s\<lparr>promises := promises s @ [Pending]\<rparr>"
  have pr: "pending_requests ?s0 k = pending_requests s k"
    by (simp add: pending_requests_def)
  have full: "MAX_BATCH_SIZE \<le> Suc (length (pending_requests ?s0 k))"
    using assms(2) by (simp add: pr)
  have q: "snd (queueRequest f options s) = processQueue (addToBatch k (new_request f s) ?s0)"
    using assms(1) by (simp add: queueRequest_def Let_def requeue_guard new_request_def)
  show "entered (snd (queueRequest f options s))
           = entered s @ pending_requests s k @ [new_request f s]"
    unfolding q by (simp add: addToBatch_full(1)[OF full] pr)
  show "batch_of (snd (queueRequest f options s)) k = None"
    unfolding q by (simp add: addToBatch_full(3)[OF full])
qed

lemma queueRequest_batched_pending:
  assumes "batch_key_of options = Some k"
    and "Suc (length (pending_requests s k)) < MAX_BATCH_SIZE"
  shows "entered (snd (queueRequest f options s)) = entered s"
    and "batch_of (snd (queueRequest f options s)) k
           = Some \<lparr>requests = pending_requests s k @ [new_request f s],
                   timeoutId = Some (clock s + BATCH_DELAY_MS)\<rparr>"
proof -
  let ?s0 = "s\<lparr>promises := promises s @ [Pending]\<rparr>"
  have pr: "pending_requests ?s0 k = pending_requests s k"
    by (simp add: pending_requests_def)
  have pend: "Suc (length (pending_requests ?s0 k)) < MAX_BATCH_SIZE"
    using assms(2) by (simp add: pr)
  have q: "snd (queueRequest f options s) = processQueue (addToBatch k (new_request f s) ?s0)"
    using assms(1) by (simp add: queueRequest_def Let_def requeue_guard new_request_def)
  show "entered (snd (queueRequest f options s)) = entered s"
    unfolding q by (simp add: addToBatch_pending[OF pend])
  show "batch_of (snd (queueRequest f options s)) k
           = Some \<lparr>requests = pending_requests s k @ [new_request f s],
                   timeoutId = Some (clock s + BATCH_DELAY_MS)\<rparr>"
    unfolding q by (simp add: addToBatch_pending[OF pend] pr update_conv')
qed

lemma entered_settled [simp]:
  "entered (executeRequest_settled r result s) = entered s"
  "pendingBatches (executeRequest_settled r result s) = pendingBatches s"
  by (simp_all add: executeRequest_settled_eq)

lemma step_Settles_views [simp]:
  "entered (step (Settles p result) s) = entered s"
  "pendingBatches (step (Settles p result) s) = pendingBatches s"
  by (cases "filter (\<lambda>r. promise r = p) (running s)"; simp)+

subsection \<open>Runs without batch keys\<close>

text \<open>
  An event of a run in which no unit carries a batch key and \<^verbatim>\<open>clear\<close> is not
  called; \<open>enqueued\<close> lists the actions handed to \<^verbatim>\<open>queueRequest\<close>, in order.
\<close>

fun unbatched :: "('f, 'e, 'v) event \<Rightarrow> bool" where
  "unbatched (QueueRequest f options) = (batch_key_of options = None)"
| "unbatched Clear = False"
| "unbatched e = True"

fun enqueued :: "('f, 'e, 'v) event list \<Rightarrow> 'f list" where
  "enqueued [] = []"
| "enqueued (QueueRequest f options # evs) = f # enqueued evs"
| "enqueued (e # evs) = enqueued evs"

lemma enqueued_append: "enqueued (evs @ evs') = enqueued evs @ enqueued evs'"
  by (induction evs rule: enqueued.induct) simp_all

lemma unbatched_run:
  assumes "list_all unbatched evs"
  shows "pendingBatches (run evs) = []
       \<and> map fn (entered (run evs)) = enqueued evs
       \<and> map promise (entered (run evs)) = [0..<length (enqueued evs)]
       \<and> length (promises (run evs)) = length (enqueued evs)"
  using assms
proof (induction evs rule: rev_induct)
  case Nil
  show ?case by (simp add: run_Nil new_queue_def entered_def)
next
  case (snoc e evs)
  then have IH: "pendingBatches (run evs) = []" "map fn (entered (run evs)) = enqueued evs"
    "map promise (entered (run evs)) = [0..<length (enqueued evs)]"
    "length (promises (run evs)) = length (enqueued evs)"
    and e: "unbatched e"
    by simp_all
  show ?case
  proof (cases e)
    case (QueueRequest f options)
    with e have n: "batch_key_of options = None" by simp
    show ?thesis
      using IH queueRequest_unbatched[OF n, of f "run evs"] queueRequest_units(1)[of f options "run evs"]
      by (simp add: run_snoc QueueRequest enqueued_append new_request_def)
  next
    case (BatchTimer k)
    then show ?thesis using IH by (simp add: run_snoc enqueued_append)
  next
    case LoopTimer
    then show ?thesis using IH by (simp add: run_snoc enqueued_append)
  next
    case (Settles p result)
    then show ?thesis using IH
      by (simp add: run_snoc enqueued_append step_promises settle_def del: step.simps)
  next
    case (Tick d)
    then show ?thesis using IH by (simp add: run_snoc enqueued_append entered_def)
  next
    case Clear
    with e show ?thesis by simp
  qed
qed

subsection \<open>The priority option\<close>

fun drop_priority :: "('f, 'e, 'v) event \<Rightarrow> ('f, 'e, 'v) event" where
  "drop_priority (QueueRequest f options) = QueueRequest f (options\<lparr>priority := None\<rparr>)"
| "drop_priority e = e"

lemma queueRequest_priority:
  "queueRequest f (options\<lparr>priority := x\<rparr>) s = queueRequest f options s"
  by (simp add: queueRequest_def batch_key_of_def)

lemma step_drop_priority: "step (drop_priority e) s = step e s"
  by (cases e) (simp_all add: queueRequest_priority)

lemma run_drop_priority: "run (map drop_priority evs) = run evs"
proof (induction evs rule: rev_induct)
  case Nil
  show ?case by simp
next
  case (snoc e evs)
  then show ?case by (simp add: run_snoc step_drop_priority)
qed

subsection \<open>Pending batches\<close>

text \<open>
  Every pending batch has a timer pending, holds at least one unit and fewer than
  MAX_BATCH_SIZE.
\<close>

definition batches_ok :: "(string \<times> 'f RequestBatch) list \<Rightarrow> bool" where
  "batches_ok pb = list_all (\<lambda>(k, b). timeoutId b \<noteq> None \<and> requests b \<noteq> []
                                  \<and> length (requests b) < MAX_BATCH_SIZE) pb"

lemma batches_ok_update:
  "batches_ok pb \<Longrightarrow> timeoutId b \<noteq> None \<Longrightarrow> requests b \<noteq> [] \<Longrightarrow>
   length (requests b) < MAX_BATCH_SIZE \<Longrightarrow> batches_ok (AList.update k b pb)"
  unfolding batches_ok_def by (induction pb) auto

lemma batches_ok_delete: "batches_ok pb \<Longrightarrow> batches_ok (AList.delete k pb)"
  unfolding batches_ok_def by (induction pb) auto

lemma batches_ok_processBatch:
  "batches_ok (pendingBatches s) \<Longrightarrow> batches_ok (pendingBatches (processBatch k s))"
  by (simp add: pendingBatches_processBatch batches_ok_delete split: option.splits)

lemma batches_ok_addToBatch:
  assumes "batches_ok (pendingBatches s)"
  shows "batches_ok (pendingBatches (addToBatch k r s))"
proof (cases rule: addToBatch_cases[where s=s and k=k])
  case full
  let ?b = "case batch_of s k of None \<Rightarrow> \<lparr>requests = [], timeoutId = None\<rparr> | Some b \<Rightarrow> b"
  let ?b1 = "?b\<lparr>requests := requests ?b @ [r]\<rparr>"
  let ?s1 = "s\<lparr>pendingBatches := AList.update k ?b1 (pendingBatches s)\<rparr>"
  have req: "requests ?b = pending_requests s k"
    by (simp add: pending_requests_def split: option.splits)
  have a: "addToBatch k r s = processBatch k ?s1"
    using full by (simp add: addToBatch_def Let_def batch_of_def req[unfolded batch_of_def])
  have b: "batch_of ?s1 k = Some ?b1" by (simp add: update_conv')
  have "pendingBatches (addToBatch k r s) = AList.delete k (pendingBatches s)"
    unfolding a pendingBatches_processBatch b by (simp add: delete_update_same)
  then show ?thesis using assms by (simp add: batches_ok_delete)
next
  case pending
  show ?thesis
    unfolding addToBatch_pending[OF pending]
    using assms pending by (simp add: batches_ok_update)
qed

lemma batches_ok_step:
  assumes "batches_ok (pendingBatches s)"
  shows "batches_ok (pendingBatches (step e s))"
proof (cases e)
  case (QueueRequest f options)
  have "batches_ok (pendingBatches (addToBatch k r (s\<lparr>promises := ps\<rparr>)))" for k r ps
    by (rule batches_ok_addToBatch) (simp add: assms)
  then show ?thesis using assms QueueRequest
    by (simp add: queueRequest_def Let_def requeue_guard split: option.splits)
next
  case (BatchTimer k)
  then show ?thesis using assms by (simp add: batches_ok_processBatch split: option.splits)
next
  case LoopTimer
  then show ?thesis using assms by simp
next
  case (Settles p result)
  then show ?thesis using assms by (simp del: step.simps)
next
  case (Tick d)
  then show ?thesis using assms by simp
next
  case Clear
  then show ?thesis by (simp add: clear_def batches_ok_def)
qed

lemma run_batches_ok: "batches_ok (pendingBatches (run evs))"
proof (induction evs rule: rev_induct)
  case Nil
  show ?case by (simp add: run_Nil new_queue_def batches_ok_def)
next
  case (snoc e evs)
  then show ?case by (simp add: run_snoc batches_ok_step)
qed

lemma batchTimer_due:
  assumes "batch_of s k = Some b" and "timeoutId b = Some due"
  shows "clock s < due \<Longrightarrow> step (BatchTimer k) s = s"
    and "due \<le> clock s \<Longrightarrow> entered (step (BatchTimer k) s) = entered s @ requests b"
    and "due \<le> clock s \<Longrightarrow> batch_of (step (BatchTimer k) s) k = None"
  using assms processBatch_views(1,3)[OF assms(1)]
  by (simp_all add: batch_of_def)

subsection \<open>Twenty-five units under one key\<close>

lemma run_append: "run (evs @ evs') = fold step evs' (run evs)"
  by (simp add: run_def)

text \<open>
  The units are enqueued with no time passing between them. In \<open>votes_schedule\<close> every
  action resolves, unit \<open>i\<close> with \<open>v i\<close>, and the timers fire when due: the first ten
  actions settle, the loop wakes at 10 ms and dispatches ten more, these settle, the batch
  timer fires at 50 ms, the loop wakes at 60 ms and dispatches the last five, these settle,
  and the loop wakes at 110 ms and stops.
\<close>

definition votes :: queue_options where
  "votes = \<lparr>batchKey = Some ''votes'', priority = None\<rparr>"

definition votes_burst :: "(nat \<Rightarrow> 'f) \<Rightarrow> nat \<Rightarrow> ('f, 'e, 'v) event list" where
  "votes_burst f n = map (\<lambda>i. QueueRequest (f i) votes) [0..<n]"

definition all_resolve :: "(nat \<Rightarrow> 'v) \<Rightarrow> nat \<Rightarrow> nat \<Rightarrow> ('f, 'e, 'v) event list" where
  "all_resolve v i j = map (\<lambda>p. Settles p (Inr (v p))) [i..<j]"

definition votes_schedule :: "(nat \<Rightarrow> 'f) \<Rightarrow> (nat \<Rightarrow> 'v) \<Rightarrow> ('f, 'e, 'v) event list" where
  "votes_schedule f v =
     votes_burst f 25 @ all_resolve v 0 10 @ [Tick 10, LoopTimer] @ all_resolve v 10 20
       @ [Tick 40, BatchTimer ''votes'', Tick 10, LoopTimer] @ all_resolve v 20 25
       @ [Tick 50, LoopTimer]"

definition unit_of :: "(nat \<Rightarrow> 'f) \<Rightarrow> nat \<Rightarrow> 'f QueuedRequest" where
  "unit_of f i = \<lparr>fn = f i, promise = i, timestamp = 0\<rparr>"

lemmas queue_eval = run_def new_queue_def votes_burst_def all_resolve_def votes_def unit_of_def
  queueRequest_def batch_key_of_def
  addToBatch_def processBatch_def processQueue_def drain.simps dispatch_def resume_def
  executeRequest_settled_def settle_def clear_def MAX_CONCURRENT_def MAX_BATCH_SIZE_def
  BATCH_DELAY_MS_def Let_def upt_rec entered_def pending_requests_def batch_of_def
  eval_nat_numeral

lemma votes_burst_Suc:
  "votes_burst f (Suc n) = votes_burst f n @ [QueueRequest (f n) votes]"
  by (simp add: votes_burst_def)

lemma votes_burst_19:
  "run (votes_burst f 19 :: ('f, 'e, 'v) event list)
     = \<lparr>queue = [], processing = False, currentConcurrent = 0,
        pendingBatches = [(''votes'', \<lparr>requests = map (unit_of f) [0..<19], timeoutId = Some 50\<rparr>)],
        loopAt = NotRunning, running = [], promises = replicate 19 Pending, clock = 0,
        dispatched = []\<rparr>"
  by (simp add: queue_eval)

lemma votes_burst_20:
  "run (votes_burst f 20 :: ('f, 'e, 'v) event list)
     = \<lparr>queue = map (unit_of f) [10..<20], processing = True, currentConcurrent = 10,
        pendingBatches = [], loopAt = SleepInner 10, running = map (unit_of f) [0..<10],
        promises = replicate 20 Pending, clock = 0, dispatched = map (unit_of f) [0..<10]\<rparr>"
proof -
  have "votes_burst f 20 = (votes_burst f 19 :: ('f, 'e, 'v) event list) @ [QueueRequest (f 19) votes]"
    using votes_burst_Suc[of f 19] by simp
  then show ?thesis
    by (simp only: run_append votes_burst_19) (simp add: queue_eval)
qed

lemma votes_burst_25:
  "run (votes_burst f 25 :: ('f, 'e, 'v) event list)
     = \<lparr>queue = map (unit_of f) [10..<20], processing = True, currentConcurrent = 10,
        pendingBatches = [(''votes'', \<lparr>requests = map (unit_of f) [20..<25], timeoutId = Some 50\<rparr>)],
        loopAt = SleepInner 10, running = map (unit_of f) [0..<10],
        promises = replicate 25 Pending, clock = 0, dispatched = map (unit_of f) [0..<10]\<rparr>"
proof -
  have "votes_burst f 25 = (votes_burst f 20 :: ('f, 'e, 'v) event list)
          @ map (\<lambda>i. QueueRequest (f i) votes) [20..<25]"
  proof -
    have "[0..<25] = [0..<20] @ [20..<25]" using upt_add_eq_append[of 0 20 5] by simp
    then show ?thesis by (simp only: votes_burst_def map_append)
  qed
  then show ?thesis
    by (simp only: run_append votes_burst_20) (simp add: queue_eval)
qed

lemma votes_final:
  "run (votes_schedule f v :: ('f, 'e, 'v) event list)
     = \<lparr>queue = [], processing = False, currentConcurrent = 0, pendingBatches = [],
        loopAt = NotRunning, running = [], promises = map (\<lambda>i. Resolved (v i)) [0..<25],
        clock = 110, dispatched = map (unit_of f) [0..<25]\<rparr>"
  unfolding votes_schedule_def
  by (simp only: run_append votes_burst_25) (simp add: queue_eval)

lemma entered_grows:
  assumes "e \<noteq> Clear"
  shows "prefix (entered s) (entered (step e s))"
proof (cases e)
  case (QueueRequest f options)
  show ?thesis
  proof (cases "batch_key_of options")
    case None
    then show ?thesis using QueueRequest by (simp add: queueRequest_unbatched)
  next
    case (Some k)
    show ?thesis
    proof (cases rule: addToBatch_cases[where s=s and k=k])
      case full
      then show ?thesis using QueueRequest Some by (simp add: queueRequest_batched_full)
    next
      case pending
      then show ?thesis using QueueRequest Some by (simp add: queueRequest_batched_pending)
    qed
  qed
next
  case (BatchTimer k)
  show ?thesis
  proof (cases "batch_of s k")
    case None
    then show ?thesis using BatchTimer by (simp add: batch_of_def)
  next
    case (Some b)
    then show ?thesis using BatchTimer processBatch_views(1)[OF Some]
      by (simp add: batch_of_def split: option.splits)
  qed
next
  case LoopTimer
  then show ?thesis by simp
next
  case (Settles p result)
  then show ?thesis by (simp del: step.simps)
next
  case (Tick d)
  then show ?thesis by (simp add: entered_def)
next
  case Clear
  with assms show ?thesis by simp
qed

text \<open>
  C2. MAX_BATCH_SIZE is 20 and BATCH_DELAY_MS is 50. In any state, a unit enqueued under
  a key whose pending batch it brings to MAX_BATCH_SIZE sends the whole batch, itself
  last, to the end of the main queue in that same call, and the key has no pending batch
  left. A unit that leaves the batch below MAX_BATCH_SIZE is appended to it and the
  batch's timer is set anew to BATCH_DELAY_MS from now; nothing enters the main queue.
  The timer does nothing before it is due; when it fires, the batch goes to the end of
  the main queue and the key is free. Apart from \<^verbatim>\<open>clear\<close>, no turn takes anything
  back from what has entered the main queue, and in every reachable state each pending
  batch has a timer pending. For 25 units enqueued under \<^verbatim>\<open>votes\<close> with no time
  passing: after 19 nothing has entered the main queue; the 20th sends the first 20 in,
  in order; after the 25th the main queue has received those 20 only and units 20 to 24
  are pending with a timer due at 50 ms. When every action resolves and the timers fire
  when due, all 25 promises end resolved, each with the value of its own action, after
  all 25 units have been dispatched in order.
\<close>

theorem batch_flush_full_or_idle:
  "MAX_BATCH_SIZE = 20 \<and> BATCH_DELAY_MS = 50
   \<and> (batch_key_of options = Some k \<and> MAX_BATCH_SIZE \<le> Suc (length (pending_requests s k)) \<longrightarrow>
        entered (step (QueueRequest g options) s)
          = entered s @ pending_requests s k @ [new_request g s]
      \<and> batch_of (step (QueueRequest g options) s) k = None)
   \<and> (batch_key_of options = Some k \<and> Suc (length (pending_requests s k)) < MAX_BATCH_SIZE \<longrightarrow>
        entered (step (QueueRequest g options) s) = entered s
      \<and> batch_of (step (QueueRequest g options) s) k
          = Some \<lparr>requests = pending_requests s k @ [new_request g s],
                  timeoutId = Some (clock s + BATCH_DELAY_MS)\<rparr>)
   \<and> (batch_of s k = Some b \<and> timeoutId b = Some due \<and> clock s < due \<longrightarrow>
        step (BatchTimer k) s = s)
   \<and> (batch_of s k = Some b \<and> timeoutId b = Some due \<and> due \<le> clock s \<longrightarrow>
        entered (step (BatchTimer k) s) = entered s @ requests b
      \<and> batch_of (step (BatchTimer k) s) k = None)
   \<and> (e \<noteq> Clear \<longrightarrow> prefix (entered s) (entered (step e s)))
   \<and> batches_ok (pendingBatches (run evs))
   \<and> entered (run (votes_burst f 19 :: ('f, 'e, 'v) event list)) = []
   \<and> entered (run (votes_burst f 20 :: ('f, 'e, 'v) event list)) = map (unit_of f) [0..<20]
   \<and> pendingBatches (run (votes_burst f 20 :: ('f, 'e, 'v) event list)) = []
   \<and> entered (run (votes_burst f 25 :: ('f, 'e, 'v) event list)) = map (unit_of f) [0..<20]
   \<and> pendingBatches (run (votes_burst f 25 :: ('f, 'e, 'v) event list))
       = [(''votes'', \<lparr>requests = map (unit_of f) [20..<25], timeoutId = Some 50\<rparr>)]
   \<and> clock (run (votes_burst f 25 :: ('f, 'e, 'v) event list)) = 0
   \<and> promises (run (votes_schedule f v :: ('f, 'e, 'v) event list))
       = map (\<lambda>i. Resolved (v i)) [0..<25]
   \<and> dispatched (run (votes_schedule f v :: ('f, 'e, 'v) event list)) = map (unit_of f) [0..<25]
   \<and> queue (run (votes_schedule f v :: ('f, 'e, 'v) event list)) = []
   \<and> pendingBatches (run (votes_schedule f v :: ('f, 'e, 'v) event list)) = []"
proof -
  have numbers: "MAX_BATCH_SIZE = 20 \<and> BATCH_DELAY_MS = 50"
    by (simp add: MAX_BATCH_SIZE_def BATCH_DELAY_MS_def)
  have full: "batch_key_of options = Some k \<and> MAX_BATCH_SIZE \<le> Suc (length (pending_requests s k)) \<longrightarrow>
        entered (step (QueueRequest g options) s)
          = entered s @ pending_requests s k @ [new_request g s]
      \<and> batch_of (step (QueueRequest g options) s) k = None"
    by (simp add: queueRequest_batched_full)
  have pend: "batch_key_of options = Some k \<and> Suc (length (pending_requests s k)) < MAX_BATCH_SIZE \<longrightarrow>
        entered (step (QueueRequest g options) s) = entered s
      \<and> batch_of (step (QueueRequest g options) s) k
          = Some \<lparr>requests = pending_requests s k @ [new_request g s],
                  timeoutId = Some (clock s + BATCH_DELAY_MS)\<rparr>"
    by (simp add: queueRequest_batched_pending)
  have early: "batch_of s k = Some b \<and> timeoutId b = Some due \<and> clock s < due \<longrightarrow>
        step (BatchTimer k) s = s"
    using batchTimer_due(1)[of s k b due] by blast
  have due: "batch_of s k = Some b \<and> timeoutId b = Some due \<and> due \<le> clock s \<longrightarrow>
        entered (step (BatchTimer k) s) = entered s @ requests b
      \<and> batch_of (step (BatchTimer k) s) k = None"
    using batchTimer_due(2,3)[of s k b due] by blast
  have grows: "e \<noteq> Clear \<longrightarrow> prefix (entered s) (entered (step e s))"
    using entered_grows[of e s] by blast
  have inv: "batches_ok (pendingBatches (run evs))" by (rule run_batches_ok)
  have s19: "entered (run (votes_burst f 19 :: ('f, 'e, 'v) event list)) = []"
    by (simp add: votes_burst_19 entered_def)
  have s20: "entered (run (votes_burst f 20 :: ('f, 'e, 'v) event list)) = map (unit_of f) [0..<20]
     \<and> pendingBatches (run (votes_burst f 20 :: ('f, 'e, 'v) event list)) = []"
  proof -
    have "[0..<20] = [0..<10] @ [10..<20]" using upt_add_eq_append[of 0 10 10] by simp
    then show ?thesis by (simp only: votes_burst_20 entered_def map_append) simp
  qed
  have s25: "entered (run (votes_burst f 25 :: ('f, 'e, 'v) event list)) = map (unit_of f) [0..<20]
     \<and> pendingBatches (run (votes_burst f 25 :: ('f, 'e, 'v) event list))
       = [(''votes'', \<lparr>requests = map (unit_of f) [20..<25], timeoutId = Some 50\<rparr>)]
     \<and> clock (run (votes_burst f 25 :: ('f, 'e, 'v) event list)) = 0"
  proof -
    have "[0..<20] = [0..<10] @ [10..<20]" using upt_add_eq_append[of 0 10 10] by simp
    then show ?thesis by (simp only: votes_burst_25 entered_def map_append) simp
  qed
  have fin: "promises (run (votes_schedule f v :: ('f, 'e, 'v) event list))
       = map (\<lambda>i. Resolved (v i)) [0..<25]
     \<and> dispatched (run (votes_schedule f v :: ('f, 'e, 'v) event list)) = map (unit_of f) [0..<25]
     \<and> queue (run (votes_schedule f v :: ('f, 'e, 'v) event list)) = []
     \<and> pendingBatches (run (votes_schedule f v :: ('f, 'e, 'v) event list)) = []"
    by (simp only: votes_final) simp
  from numbers full pend early due grows inv s19 s20 s25 fin show ?thesis by blast
qed

theorem batch_flush_full_or_idle_witness:
  "batch_key_of votes = Some ''votes''
   \<and> pending_requests (run (votes_burst (\<lambda>i. i) 19 :: (nat, string, nat) event list)) ''votes''
       = map (unit_of (\<lambda>i. i)) [0..<19]
   \<and> entered (step (QueueRequest 19 votes) (run (votes_burst (\<lambda>i. i) 19 :: (nat, string, nat) event list)))
       = map (unit_of (\<lambda>i. i)) [0..<20]
   \<and> batch_of (step (QueueRequest 19 votes) (run (votes_burst (\<lambda>i. i) 19 :: (nat, string, nat) event list)))
         ''votes'' = None
   \<and> pending_requests (new_queue :: (nat, string, nat) RequestQueue) ''votes'' = []
   \<and> batch_of (step (QueueRequest 0 votes) (new_queue :: (nat, string, nat) RequestQueue)) ''votes''
       = Some \<lparr>requests = [unit_of (\<lambda>i. i) 0], timeoutId = Some 50\<rparr>
   \<and> step (BatchTimer ''votes'') (run (votes_burst (\<lambda>i. i) 25 :: (nat, string, nat) event list))
       = run (votes_burst (\<lambda>i. i) 25)
   \<and> entered (step (BatchTimer ''votes'')
         (run (votes_burst (\<lambda>i. i) 25 @ [Tick 50] :: (nat, string, nat) event list)))
       = map (unit_of (\<lambda>i. i)) [0..<25]"
proof -
  let ?s19 = "run (votes_burst (\<lambda>i. i) 19 :: (nat, string, nat) event list)"
  let ?s25 = "run (votes_burst (\<lambda>i. i) 25 :: (nat, string, nat) event list)"
  let ?s25' = "run (votes_burst (\<lambda>i. i) 25 @ [Tick 50] :: (nat, string, nat) event list)"
  let ?b = "\<lparr>requests = map (unit_of (\<lambda>i. i)) [20..<25], timeoutId = Some (50::int)\<rparr>"
  have k: "batch_key_of votes = Some ''votes''" by (simp add: batch_key_of_def votes_def)
  have p19: "pending_requests ?s19 ''votes'' = map (unit_of (\<lambda>i. i)) [0..<19]"
    by (simp add: votes_burst_19 pending_requests_def batch_of_def)
  have e19: "entered ?s19 = []" by (simp add: votes_burst_19 entered_def)
  have n19: "new_request 19 ?s19 = unit_of (\<lambda>i. i) 19"
    by (simp add: votes_burst_19 new_request_def unit_of_def)
  have full: "MAX_BATCH_SIZE \<le> Suc (length (pending_requests ?s19 ''votes''))"
    by (simp add: p19 MAX_BATCH_SIZE_def)
  have p0: "pending_requests (new_queue :: (nat, string, nat) RequestQueue) ''votes'' = []"
    by (simp add: new_queue_def pending_requests_def batch_of_def)
  have n0: "new_request 0 (new_queue :: (nat, string, nat) RequestQueue) = unit_of (\<lambda>i. i) 0"
    "clock (new_queue :: (nat, string, nat) RequestQueue) = 0"
    by (simp_all add: new_queue_def new_request_def unit_of_def)
  have pend: "Suc (length (pending_requests (new_queue :: (nat, string, nat) RequestQueue) ''votes''))
      < MAX_BATCH_SIZE"
    by (simp add: p0 MAX_BATCH_SIZE_def)
  have b25: "batch_of ?s25 ''votes'' = Some ?b" "clock ?s25 < 50" "entered ?s25 = map (unit_of (\<lambda>i. i)) [0..<20]"
  proof -
    have "[0..<20] = [0..<10] @ [10..<20]" using upt_add_eq_append[of 0 10 10] by simp
    then show "batch_of ?s25 ''votes'' = Some ?b" "clock ?s25 < 50"
      "entered ?s25 = map (unit_of (\<lambda>i. i)) [0..<20]"
      by (simp_all only: votes_burst_25 entered_def batch_of_def map_append) simp_all
  qed
  have s25': "?s25' = ?s25\<lparr>clock := 50\<rparr>"
    by (simp only: run_append votes_burst_25) simp
  have b25': "batch_of ?s25' ''votes'' = Some ?b" "50 \<le> clock ?s25'" "entered ?s25' = map (unit_of (\<lambda>i. i)) [0..<20]"
    using b25 by (simp_all add: s25')
  have t: "timeoutId ?b = Some 50" "requests ?b = map (unit_of (\<lambda>i. i)) [20..<25]" by simp_all
  have split: "map (unit_of (\<lambda>i. i)) [0..<25] = map (unit_of (\<lambda>i. i)) [0..<20] @ map (unit_of (\<lambda>i. i)) [20..<25]"
    using upt_add_eq_append[of 0 20 5] by (simp del: upt_Suc)
  have split': "map (unit_of (\<lambda>i. i)) [0..<20] = map (unit_of (\<lambda>i. i)) [0..<19] @ [unit_of (\<lambda>i. i) 19]"
    using upt_Suc_append[of 0 19] by simp
  have A: "entered (step (QueueRequest 19 votes) ?s19)
             = entered ?s19 @ pending_requests ?s19 ''votes'' @ [new_request 19 ?s19]
           \<and> batch_of (step (QueueRequest 19 votes) ?s19) ''votes'' = None"
    using batch_flush_full_or_idle[where options=votes and k="''votes''" and s="?s19" and g=19,
        THEN conjunct2, THEN conjunct2, THEN conjunct1] k full
    by blast
  have B: "batch_of (step (QueueRequest 0 votes) (new_queue :: (nat, string, nat) RequestQueue)) ''votes''
          = Some \<lparr>requests = pending_requests (new_queue :: (nat, string, nat) RequestQueue) ''votes''
                               @ [new_request 0 (new_queue :: (nat, string, nat) RequestQueue)],
                  timeoutId = Some (clock (new_queue :: (nat, string, nat) RequestQueue) + BATCH_DELAY_MS)\<rparr>"
    using batch_flush_full_or_idle[where options=votes and k="''votes''"
          and s="new_queue :: (nat, string, nat) RequestQueue" and g=0,
        THEN conjunct2, THEN conjunct2, THEN conjunct2, THEN conjunct1] k pend
    by blast
  have C: "step (BatchTimer ''votes'') ?s25 = ?s25"
    using batch_flush_full_or_idle[where k="''votes''" and s="?s25" and b="?b" and due=50,
        THEN conjunct2, THEN conjunct2, THEN conjunct2, THEN conjunct2, THEN conjunct1]
      b25(1,2) t(1)
    by blast
  have D: "entered (step (BatchTimer ''votes'') ?s25') = entered ?s25' @ requests ?b"
    using batch_flush_full_or_idle[where k="''votes''" and s="?s25'" and b="?b" and due=50,
        THEN conjunct2, THEN conjunct2, THEN conjunct2, THEN conjunct2, THEN conjunct2,
        THEN conjunct1]
      b25'(1,2) t(1)
    by blast
  show ?thesis
    using A B C D k p19 e19 n19 p0 n0 b25'(3) t(2)
    by (simp add: split split' BATCH_DELAY_MS_def del: step.simps)
qed

text \<open>
  C1. In every state the queue reaches (by calls of \<^verbatim>\<open>queueRequest\<close> with or without
  batch keys, timers firing, actions settling, the clock advancing, calls of
  \<^verbatim>\<open>clear\<close>, in any order) \<^verbatim>\<open>currentConcurrent\<close> is at most MAX_CONCURRENT = 10,
  and it is the number of units in flight. In a run where no unit carries a batch key and
  \<^verbatim>\<open>clear\<close> is not called, the units dispatched so far followed by the units still
  waiting are exactly the units enqueued, in the order of the calls: every
  \<^verbatim>\<open>queue.shift()\<close> took the earliest unit not yet dispatched. And while a unit waits,
  the loop is running, suspended at one of its awaits.
\<close>

theorem fifo_dispatch_under_ceiling:
  "currentConcurrent (run evs) \<le> MAX_CONCURRENT \<and> MAX_CONCURRENT = 10
   \<and> currentConcurrent (run evs) = int (length (running (run evs)))
   \<and> (list_all unbatched evs \<longrightarrow>
         map fn (dispatched (run evs) @ queue (run evs)) = enqueued evs
       \<and> map promise (dispatched (run evs) @ queue (run evs)) = [0..<length (enqueued evs)])
   \<and> (queue (run evs) = [] \<or> processing (run evs) \<and> loopAt (run evs) \<noteq> NotRunning)"
proof -
  have a: "currentConcurrent (run evs) \<le> MAX_CONCURRENT" by (rule run_ceiling)
  have b: "MAX_CONCURRENT = 10" by (simp add: MAX_CONCURRENT_def)
  have ctl: "ctl_inv (run evs)" by (rule run_ctl)
  then have c: "currentConcurrent (run evs) = int (length (running (run evs)))"
    and d: "queue (run evs) = [] \<or> processing (run evs) \<and> loopAt (run evs) \<noteq> NotRunning"
    by (auto simp: ctl_inv_def)
  have e: "list_all unbatched evs \<longrightarrow>
         map fn (dispatched (run evs) @ queue (run evs)) = enqueued evs
       \<and> map promise (dispatched (run evs) @ queue (run evs)) = [0..<length (enqueued evs)]"
    using unbatched_run[of evs] by (simp add: entered_def)
  from a b c d e show ?thesis by blast
qed

definition plain :: queue_options where
  "plain = \<lparr>batchKey = None, priority = None\<rparr>"

definition fifo_demo :: "(nat, string, nat) event list" where
  "fifo_demo = map (\<lambda>i. QueueRequest (100 + i) plain) [0..<12]
                 @ [Tick 50, LoopTimer, Settles 3 (Inr 33), Tick 10, LoopTimer]"

lemma fifo_demo_run:
  "run fifo_demo
     = \<lparr>queue = [\<lparr>fn = 111, promise = 11, timestamp = 0\<rparr>], processing = True,
        currentConcurrent = 10, pendingBatches = [], loopAt = SleepInner 70,
        running = map (\<lambda>i. \<lparr>fn = 100 + i, promise = i, timestamp = 0\<rparr>) [0, 1, 2, 4, 5, 6, 7, 8, 9, 10],
        promises = (replicate 12 Pending)[3 := Resolved 33], clock = 60,
        dispatched = map (\<lambda>i. \<lparr>fn = 100 + i, promise = i, timestamp = 0\<rparr>) [0..<11]\<rparr>"
  by (simp add: fifo_demo_def plain_def queue_eval)

theorem fifo_dispatch_under_ceiling_witness:
  "list_all unbatched fifo_demo
   \<and> map fn (dispatched (run fifo_demo) @ queue (run fifo_demo))
       = [100, 101, 102, 103, 104, 105, 106, 107, 108, 109, 110, 111]
   \<and> map fn (dispatched (run fifo_demo))
       = [100, 101, 102, 103, 104, 105, 106, 107, 108, 109, 110]
   \<and> currentConcurrent (run fifo_demo) = 10"
proof -
  have u: "list_all unbatched fifo_demo"
    by (simp add: fifo_demo_def plain_def batch_key_of_def list_all_iff)
  have en: "enqueued fifo_demo = [100, 101, 102, 103, 104, 105, 106, 107, 108, 109, 110, 111]"
    by (simp add: fifo_demo_def upt_rec)
  have d: "map fn (dispatched (run fifo_demo))
       = [100, 101, 102, 103, 104, 105, 106, 107, 108, 109, 110]"
    "currentConcurrent (run fifo_demo) = 10"
    by (simp_all add: fifo_demo_run upt_rec)
  from fifo_dispatch_under_ceiling[of fifo_demo] u
  have "map fn (dispatched (run fifo_demo) @ queue (run fifo_demo)) = enqueued fifo_demo"
    by blast
  with u en d show ?thesis by simp
qed

text \<open>
  C8. Two sequences of events that are the same once every \<^verbatim>\<open>priority\<close> is erased
  lead to the same state: the same queue, the same units in flight, the same dispatch
  log, the same promises.
\<close>

theorem priority_has_no_effect:
  assumes "map drop_priority evs = map drop_priority evs'"
  shows "run evs = run evs'"
proof -
  have "run evs = run (map drop_priority evs)" by (simp add: run_drop_priority)
  also have "\<dots> = run (map drop_priority evs')" by (simp add: assms)
  also have "\<dots> = run evs'" by (simp add: run_drop_priority)
  finally show ?thesis .
qed

definition priority_demo :: "int option \<Rightarrow> int option \<Rightarrow> (nat, string, nat) event list" where
  "priority_demo p q =
     [QueueRequest 7 \<lparr>batchKey = None, priority = p\<rparr>,
      QueueRequest 8 \<lparr>batchKey = None, priority = q\<rparr>,
      Tick 50, LoopTimer, Settles 1 (Inr 80), Settles 0 (Inl ''boom'')]"

theorem priority_has_no_effect_witness:
  "map drop_priority (priority_demo (Some 1) (Some 9)) = map drop_priority (priority_demo (Some 5) None)
   \<and> run (priority_demo (Some 1) (Some 9)) = run (priority_demo (Some 5) None)
   \<and> map fn (dispatched (run (priority_demo (Some 1) (Some 9)))) = [7, 8]
   \<and> promises (run (priority_demo (Some 1) (Some 9))) = [Rejected ''boom'', Resolved 80]"
proof -
  have m: "map drop_priority (priority_demo (Some 1) (Some 9))
             = map drop_priority (priority_demo (Some 5) None)"
    by (simp add: priority_demo_def)
  have d: "map fn (dispatched (run (priority_demo (Some 1) (Some 9)))) = [7, 8]"
    "promises (run (priority_demo (Some 1) (Some 9))) = [Rejected ''boom'', Resolved 80]"
    by (simp_all add: priority_demo_def queue_eval)
  from priority_has_no_effect[OF m] m d show ?thesis by simp
qed

lemma settle_in_flight:
  assumes "r \<in> set (running (run evs))"
  shows "promises (step (Settles (promise r) result) (run evs))
           = (promises (run evs))[promise r := outcome_state result]"
    and "queue (step (Settles (promise r) result) (run evs)) = queue (run evs)"
    and "running (step (Settles (promise r) result) (run evs)) = remove1 r (running (run evs))"
    and "currentConcurrent (step (Settles (promise r) result) (run evs))
           = currentConcurrent (run evs) - 1"
  using in_flight_unique[OF assms]
  by (simp_all add: executeRequest_settled_eq settle_def del: step.simps)

text \<open>
  C6. Let unit \<open>r\<close> be in flight in a reachable state. Its promise exists and is pending.
  If its action resolves with \<open>v\<close> the promise becomes resolved with \<open>v\<close>; if it throws
  \<open>e\<close> the promise becomes rejected with \<open>e\<close>; no other promise changes. Whatever
  events follow, the promise keeps that value, and the state reached after the failure is
  the state reached after the success with this one promise rejected instead of resolved:
  the queue, the loop, the units in flight, the dispatch log and every other promise are
  the same. And in every reachable state a promise resolved with \<open>v'\<close> (rejected with
  \<open>e'\<close>) was settled by an event in which its own action resolved with \<open>v'\<close> (threw
  \<open>e'\<close>).
\<close>

theorem settle_exact_and_isolated:
  "(r \<in> set (running (run evs)) \<longrightarrow>
       promise r < length (promises (run evs)) \<and> promises (run evs) ! promise r = Pending
     \<and> promises (step (Settles (promise r) (Inr v)) (run evs))
         = (promises (run evs))[promise r := Resolved v]
     \<and> promises (step (Settles (promise r) (Inl e)) (run evs))
         = (promises (run evs))[promise r := Rejected e]
     \<and> promises (fold step later (step (Settles (promise r) (Inr v)) (run evs))) ! promise r
         = Resolved v
     \<and> promises (fold step later (step (Settles (promise r) (Inl e)) (run evs))) ! promise r
         = Rejected e
     \<and> fold step later (step (Settles (promise r) (Inl e)) (run evs))
         = (fold step later (step (Settles (promise r) (Inr v)) (run evs)))
             \<lparr>promises := (promises (fold step later (step (Settles (promise r) (Inr v)) (run evs))))
                            [promise r := Rejected e]\<rparr>)
   \<and> (h < length (promises (run evs)) \<and> promises (run evs) ! h = Resolved v' \<longrightarrow>
         Settles h (Inr v') \<in> set evs)
   \<and> (h < length (promises (run evs)) \<and> promises (run evs) ! h = Rejected e' \<longrightarrow>
         Settles h (Inl e') \<in> set evs)"
proof -
  have flight: "promise r < length (promises (run evs)) \<and> promises (run evs) ! promise r = Pending
     \<and> promises (step (Settles (promise r) (Inr v)) (run evs))
         = (promises (run evs))[promise r := Resolved v]
     \<and> promises (step (Settles (promise r) (Inl e)) (run evs))
         = (promises (run evs))[promise r := Rejected e]
     \<and> promises (fold step later (step (Settles (promise r) (Inr v)) (run evs))) ! promise r
         = Resolved v
     \<and> promises (fold step later (step (Settles (promise r) (Inl e)) (run evs))) ! promise r
         = Rejected e
     \<and> fold step later (step (Settles (promise r) (Inl e)) (run evs))
         = (fold step later (step (Settles (promise r) (Inr v)) (run evs)))
             \<lparr>promises := (promises (fold step later (step (Settles (promise r) (Inr v)) (run evs))))
                            [promise r := Rejected e]\<rparr>"
    if r: "r \<in> set (running (run evs))"
  proof -
    let ?s = "run evs" and ?p = "promise r"
    let ?ok = "step (Settles ?p (Inr v)) ?s" and ?ko = "step (Settles ?p (Inl e)) ?s"
    note u = in_flight_unique[OF r]
    have ok: "?ok = executeRequest_settled r (Inr v) ?s" and ko: "?ko = executeRequest_settled r (Inl e) ?s"
      by (rule u(3))+
    have pok: "promises ?ok = (promises ?s)[?p := Resolved v]"
      and pko: "promises ?ko = (promises ?s)[?p := Rejected e]"
      using settle_in_flight(1)[OF r] by (simp_all add: outcome_state_def)
    have "?ko = ?ok\<lparr>promises := (promises ?ok)[?p := Rejected e]\<rparr>"
      unfolding ok ko using u(1,2)
      by (simp add: executeRequest_settled_eq settle_def outcome_state_def)
    then have "only_differ ?p (Rejected e) (Resolved v) ?ko ?ok"
      using u(1) by (simp add: only_differ_def pok del: step.simps)
    then have "only_differ ?p (Rejected e) (Resolved v) (fold step later ?ko) (fold step later ?ok)"
      by (rule only_differ_fold)
    then have d: "fold step later ?ko
          = (fold step later ?ok)\<lparr>promises := (promises (fold step later ?ok))[?p := Rejected e]\<rparr>"
      and l: "?p < length (promises (fold step later ?ok))"
      and b: "promises (fold step later ?ok) ! ?p = Resolved v"
      by (simp_all add: only_differ_def)
    have "promises (fold step later ?ko) = (promises (fold step later ?ok))[?p := Rejected e]"
      using arg_cong[OF d, of promises] by simp
    then have a: "promises (fold step later ?ko) ! ?p = Rejected e" using l by simp
    from u(1,2) pok pko b a d show ?thesis by blast
  qed
  have prov: "\<exists>result. Settles h result \<in> set evs \<and> x = outcome_state result"
    if "h < length (promises (run evs))" "promises (run evs) ! h = x" "x \<noteq> Pending" for x
    using settled_by_own_action[of h evs] that by auto
  have res: "h < length (promises (run evs)) \<and> promises (run evs) ! h = Resolved v' \<longrightarrow>
         Settles h (Inr v') \<in> set evs"
  proof (intro impI, elim conjE)
    assume a: "h < length (promises (run evs))" "promises (run evs) ! h = Resolved v'"
    from prov[OF a] obtain result where "Settles h result \<in> set evs" "Resolved v' = outcome_state result"
      by auto
    then show "Settles h (Inr v') \<in> set evs"
      by (cases result) (simp_all add: outcome_state_def)
  qed
  have rej: "h < length (promises (run evs)) \<and> promises (run evs) ! h = Rejected e' \<longrightarrow>
         Settles h (Inl e') \<in> set evs"
  proof (intro impI, elim conjE)
    assume a: "h < length (promises (run evs))" "promises (run evs) ! h = Rejected e'"
    from prov[OF a] obtain result where "Settles h result \<in> set evs" "Rejected e' = outcome_state result"
      by auto
    then show "Settles h (Inl e') \<in> set evs"
      by (cases result) (simp_all add: outcome_state_def)
  qed
  from flight res rej show ?thesis by blast
qed

definition batch_demo :: "(nat, string, string) event list" where
  "batch_demo = [QueueRequest 7 votes, QueueRequest 8 votes, QueueRequest 9 votes,
                 Tick 50, BatchTimer ''votes'']"

lemma batch_demo_run:
  "run batch_demo
     = \<lparr>queue = [], processing = True, currentConcurrent = 3, pendingBatches = [],
        loopAt = SleepOuter 100,
        running = [\<lparr>fn = 7, promise = 0, timestamp = 0\<rparr>,
                   \<lparr>fn = 8, promise = 1, timestamp = 0\<rparr>,
                   \<lparr>fn = 9, promise = 2, timestamp = 0\<rparr>],
        promises = [Pending, Pending, Pending], clock = 50,
        dispatched = [\<lparr>fn = 7, promise = 0, timestamp = 0\<rparr>,
                      \<lparr>fn = 8, promise = 1, timestamp = 0\<rparr>,
                      \<lparr>fn = 9, promise = 2, timestamp = 0\<rparr>]\<rparr>"
  by (simp add: batch_demo_def queue_eval)

theorem settle_exact_and_isolated_witness:
  "\<lparr>fn = 8, promise = 1, timestamp = 0\<rparr> \<in> set (running (run batch_demo))
   \<and> promises (step (Settles 1 (Inl ''boom'')) (run batch_demo)) = [Pending, Rejected ''boom'', Pending]
   \<and> promises (step (Settles 1 (Inr ''b'')) (run batch_demo)) = [Pending, Resolved ''b'', Pending]
   \<and> promises (fold step [Settles 0 (Inr ''a''), Settles 2 (Inr ''c'')]
         (step (Settles 1 (Inl ''boom'')) (run batch_demo)))
       = [Resolved ''a'', Rejected ''boom'', Resolved ''c'']
   \<and> fold step [Settles 0 (Inr ''a''), Settles 2 (Inr ''c'')]
         (step (Settles 1 (Inl ''boom'')) (run batch_demo))
       = (fold step [Settles 0 (Inr ''a''), Settles 2 (Inr ''c'')]
           (step (Settles 1 (Inr ''b'')) (run batch_demo)))
           \<lparr>promises := [Resolved ''a'', Rejected ''boom'', Resolved ''c'']\<rparr>
   \<and> Settles 1 (Inl ''boom'') \<in> set (batch_demo @ [Settles 1 (Inl ''boom'')])"
proof -
  let ?r = "\<lparr>fn = 8, promise = 1, timestamp = 0\<rparr> :: nat QueuedRequest"
  let ?later = "[Settles 0 (Inr ''a''), Settles 2 (Inr ''c'')] :: (nat, string, string) event list"
  have r: "?r \<in> set (running (run batch_demo))" by (simp add: batch_demo_run)
  have ps: "promises (run batch_demo) = [Pending, Pending, Pending]" by (simp add: batch_demo_run)
  have ok: "promises (fold step ?later (step (Settles 1 (Inr ''b'')) (run batch_demo)))
              = [Resolved ''a'', Resolved ''b'', Resolved ''c'']"
    by (simp only: batch_demo_run) (simp add: queue_eval)
  have p: "promise ?r = 1" by simp
  note T = settle_exact_and_isolated[where r="?r" and evs=batch_demo and v="''b''" and e="''boom''"
      and later="?later", THEN conjunct1, rule_format, OF r, unfolded p]
  have rejected: "promises (run (batch_demo @ [Settles 1 (Inl ''boom'')])) ! 1 = Rejected ''boom''"
    using T by (simp add: run_snoc ps del: step.simps)
  have len: "1 < length (promises (run (batch_demo @ [Settles 1 (Inl ''boom'')])))"
    using T by (simp add: run_snoc ps del: step.simps)
  have prov: "Settles 1 (Inl ''boom'') \<in> set (batch_demo @ [Settles 1 (Inl ''boom'')])"
    using settle_exact_and_isolated[where evs="batch_demo @ [Settles 1 (Inl ''boom'')]" and h=1
        and e'="''boom''", THEN conjunct2, THEN conjunct2] len rejected
    by blast
  show ?thesis
    using T r prov ok by (simp add: ps del: step.simps)
qed

end
